theory Spec2Isabelle
  imports
    Main
    "HOL-Library.Word"
    "HOL-Library.Signed_Division"
    "HOL-Library.Char_ord"
    "HOL-Library.List_Lexorder"
begin

section \<open>Data model\<close>

text \<open>
  The Data Flow Orchestrator keeps, for every trigger-record-builder application, a
  \<open>TriggerRecordBuilderData\<close> object (the specification's WorkerLoad).  The C++ types are
  embedded as follows.
  \<^item> \<open>trigger_number_t\<close> is an unsigned 64-bit integer, \<open>run_number_t\<close> an unsigned 32-bit
    integer: words of these widths.
  \<^item> \<open>std::chrono::steady_clock::time_point\<close> is a signed 64-bit count of nanoseconds and
    \<open>std::chrono::microseconds\<close> a signed 64-bit count of microseconds: 64-bit words, read
    with \<open>sint\<close> and compared with the signed order.
  \<^item> \<open>size_t\<close> thresholds and container sizes are only ever compared, never computed with:
    natural numbers.
  \<^item> \<open>std::shared_ptr<AssignedTriggerDecision>\<close> results are \<open>option\<close> values, \<open>None\<close> being
    the null pointer.  The list of assigned decisions itself holds the records (the
    orchestrator only ever stores what \<open>make_assignment\<close> returned).
  \<^item> \<open>nlohmann::json\<close> metadata is opaque: a type parameter \<open>'j\<close>.
  \<^item> \<open>std::function\<close> arguments are \<open>option\<close> values, \<open>None\<close> being the empty function
    object.
  \<^item> Exceptions are values of the type \<open>error\<close>.  It also has a value for each operation
    without a defined result that the code can reach: dividing by zero, dereferencing a
    null pointer, advancing or dereferencing an iterator that points to no element.
\<close>

type_synonym trigger_number_t = "64 word"
type_synonym run_number_t = "32 word"
type_synonym time_point = "64 word"
type_synonym microseconds = "64 word"

record TriggerDecision =
  trigger_number :: trigger_number_t
  run_number :: run_number_t

text \<open>
  Modelled from the spec: the constructor of \<open>AssignedTriggerDecision\<close> lives in a header
  that is not part of the sources.  The specification describes an assignment as the
  decision, the target worker and \<open>assigned_time\<close>, a monotonic time stamp taken when the
  assignment is created.  The clock reading is an argument of the model.
\<close>

record AssignedTriggerDecision =
  decision :: TriggerDecision
  connection_name :: string
  assigned_time :: time_point

datatype error =
    DFOThresholdsNotConsistent nat nat
  | NoSlotsAvailable trigger_number_t string
  | AssignedTriggerDecisionNotFound trigger_number_t string
  | DivisionByZero
  | NullPointerDereference
  | InvalidIterator

record 'j TriggerRecordBuilderData =
  m_busy_threshold :: nat
  m_free_threshold :: nat
  m_is_busy :: bool
  m_in_error :: bool
  m_connection_name :: string
  m_assigned_trigger_decisions :: "AssignedTriggerDecision list"
  m_latency_info :: "(time_point \<times> microseconds) list"
  m_metadata :: 'j

section \<open>TriggerRecordBuilderData\<close>

subsection \<open>Constructors\<close>

text \<open>
  Both constructors initialise \<open>m_free_threshold\<close> from their \<open>busy_threshold\<close> argument.
  The list of assignments and the latency window start empty; the metadata object is
  default-constructed, which the model takes as the argument \<open>md\<close>.
\<close>

definition TriggerRecordBuilderData2 ::
  "'j \<Rightarrow> string \<Rightarrow> nat \<Rightarrow> 'j TriggerRecordBuilderData" where
  "TriggerRecordBuilderData2 md name busy_threshold =
     \<lparr> m_busy_threshold = busy_threshold,
       m_free_threshold = busy_threshold,
       m_is_busy = False,
       m_in_error = False,
       m_connection_name = name,
       m_assigned_trigger_decisions = [],
       m_latency_info = [],
       m_metadata = md \<rparr>"

definition TriggerRecordBuilderData3 ::
  "'j \<Rightarrow> string \<Rightarrow> nat \<Rightarrow> nat \<Rightarrow> error + 'j TriggerRecordBuilderData" where
  "TriggerRecordBuilderData3 md name busy_threshold free_threshold =
     (if busy_threshold < free_threshold
      then Inl (DFOThresholdsNotConsistent busy_threshold free_threshold)
      else Inr \<lparr> m_busy_threshold = busy_threshold,
                 m_free_threshold = busy_threshold,
                 m_is_busy = False,
                 m_in_error = False,
                 m_connection_name = name,
                 m_assigned_trigger_decisions = [],
                 m_latency_info = [],
                 m_metadata = md \<rparr>)"

subsection \<open>Accessors defined in the header\<close>

text \<open>
  Modelled from the spec: \<open>has_slot\<close>, \<open>is_in_error\<close> and \<open>set_in_error\<close> are defined in the
  class header, which is not part of the sources.  The specification gives
  \<open>has_slot()\<close> as \<open>\<not> is_busy \<and> \<not> in_error\<close> and the other two as the reader and the
  writer of the atomic \<open>in_error\<close> bit.
\<close>

definition has_slot :: "'j TriggerRecordBuilderData \<Rightarrow> bool" where
  "has_slot w = (\<not> m_is_busy w \<and> \<not> m_in_error w)"

definition is_in_error :: "'j TriggerRecordBuilderData \<Rightarrow> bool" where
  "is_in_error w = m_in_error w"

definition set_in_error ::
  "bool \<Rightarrow> 'j TriggerRecordBuilderData \<Rightarrow> 'j TriggerRecordBuilderData" where
  "set_in_error err w = w\<lparr>m_in_error := err\<rparr>"

subsection \<open>extract_assignment and get_assignment\<close>

text \<open>
  The loop of \<open>extract_assignment\<close> walks the list from the front, erases the first
  element with the given trigger number and stops.  \<open>erase_first\<close> returns that element
  (or \<open>None\<close>, the null pointer the C++ starts with) and the remaining list.
\<close>

fun erase_first ::
  "trigger_number_t \<Rightarrow> AssignedTriggerDecision list
     \<Rightarrow> AssignedTriggerDecision option \<times> AssignedTriggerDecision list" where
  "erase_first tn [] = (None, [])"
| "erase_first tn (a # as) =
     (if trigger_number (decision a) = tn then (Some a, as)
      else (case erase_first tn as of (r, as') \<Rightarrow> (r, a # as')))"

definition extract_assignment ::
  "trigger_number_t \<Rightarrow> 'j TriggerRecordBuilderData
     \<Rightarrow> AssignedTriggerDecision option \<times> 'j TriggerRecordBuilderData" where
  "extract_assignment tn w =
     (case erase_first tn (m_assigned_trigger_decisions w) of (dec_ptr, as') \<Rightarrow>
        (let w1 = w\<lparr>m_assigned_trigger_decisions := as'\<rparr>;
             w2 = (if length (m_assigned_trigger_decisions w1) < m_free_threshold w1
                   then w1\<lparr>m_is_busy := False\<rparr> else w1)
         in (dec_ptr, w2)))"

fun get_assignment_list ::
  "trigger_number_t \<Rightarrow> AssignedTriggerDecision list \<Rightarrow> AssignedTriggerDecision option" where
  "get_assignment_list tn [] = None"
| "get_assignment_list tn (a # as) =
     (if trigger_number (decision a) = tn then Some a else get_assignment_list tn as)"

definition get_assignment ::
  "trigger_number_t \<Rightarrow> 'j TriggerRecordBuilderData \<Rightarrow> AssignedTriggerDecision option" where
  "get_assignment tn w = get_assignment_list tn (m_assigned_trigger_decisions w)"

subsection \<open>complete_assignment, make_assignment, add_assignment\<close>

text \<open>
  \<open>duration_cast<microseconds>\<close> of a nanosecond count divides by 1000, truncating
  towards zero.  The difference of two time points wraps like the 64-bit subtraction
  does.
\<close>

definition duration_cast_microseconds :: "64 word \<Rightarrow> microseconds" where
  "duration_cast_microseconds d = word_of_int (sint d sdiv 1000)"

text \<open>
  \<open>complete_assignment\<close> reads the steady clock once, after the extraction: the argument
  \<open>now\<close>.  The exception is thrown after \<open>extract_assignment\<close> has run, so the state is
  returned in both cases.
\<close>

definition complete_assignment ::
  "trigger_number_t \<Rightarrow> ('j \<Rightarrow> 'j) option \<Rightarrow> time_point \<Rightarrow> 'j TriggerRecordBuilderData
     \<Rightarrow> (error + microseconds) \<times> 'j TriggerRecordBuilderData" where
  "complete_assignment tn metadata_fun now w =
     (case extract_assignment tn w of (dec_ptr, w1) \<Rightarrow>
        (case dec_ptr of
           None \<Rightarrow> (Inl (AssignedTriggerDecisionNotFound tn (m_connection_name w1)), w1)
         | Some a \<Rightarrow>
            (let time = duration_cast_microseconds (now - assigned_time a);
                 li = m_latency_info w1 @ [(now, time)];
                 li' = (if length li > 1000 then tl li else li);
                 w2 = w1\<lparr>m_latency_info := li'\<rparr>;
                 w3 = (case metadata_fun of
                         None \<Rightarrow> w2
                       | Some f \<Rightarrow> w2\<lparr>m_metadata := f (m_metadata w2)\<rparr>)
             in (Inr time, w3))))"

definition make_assignment ::
  "TriggerDecision \<Rightarrow> time_point \<Rightarrow> 'j TriggerRecordBuilderData \<Rightarrow> AssignedTriggerDecision" where
  "make_assignment d now w =
     \<lparr> decision = d, connection_name = m_connection_name w, assigned_time = now \<rparr>"

definition add_assignment ::
  "AssignedTriggerDecision \<Rightarrow> 'j TriggerRecordBuilderData
     \<Rightarrow> (error + unit) \<times> 'j TriggerRecordBuilderData" where
  "add_assignment assignment w =
     (if is_in_error w
      then (Inl (NoSlotsAvailable (trigger_number (decision assignment)) (m_connection_name w)), w)
      else
        (let w1 = w\<lparr>m_assigned_trigger_decisions := m_assigned_trigger_decisions w @ [assignment]\<rparr>;
             w2 = (if length (m_assigned_trigger_decisions w1) \<ge> m_busy_threshold w1
                   then w1\<lparr>m_is_busy := True\<rparr> else w1)
         in (Inr (), w2)))"

subsection \<open>average_latency\<close>

text \<open>
  The loop runs over the latency window from its newest entry (the back of the deque) and
  stops at the first entry completed before \<open>since\<close>; time points compare as signed
  numbers.  \<open>latency_scan\<close> is that loop on the reversed window, with the running \<open>sum\<close>
  (here \<open>sm\<close>) and \<open>count\<close> (here \<open>cnt\<close>).  The final division is the division of a signed 64-bit count by a
  \<open>size_t\<close>: both operands are converted to unsigned 64-bit and divided there, which is
  the division of words.  Dividing by a zero count has no defined result in C++ and is
  the error \<open>DivisionByZero\<close> here.
\<close>

fun latency_scan ::
  "time_point \<Rightarrow> (time_point \<times> microseconds) list \<Rightarrow> microseconds \<Rightarrow> nat
     \<Rightarrow> microseconds \<times> nat" where
  "latency_scan since [] sm cnt = (sm, cnt)"
| "latency_scan since (e # es) sm cnt =
     (if fst e <s since then (sm, cnt)
      else latency_scan since es (sm + snd e) (cnt + 1))"

definition average_latency ::
  "time_point \<Rightarrow> 'j TriggerRecordBuilderData \<Rightarrow> error + microseconds" where
  "average_latency since w =
     (case latency_scan since (rev (m_latency_info w)) 0 0 of (sm, cnt) \<Rightarrow>
        (if cnt = 0 then Inl DivisionByZero else Inr (sm div word_of_nat cnt)))"

subsection \<open>Serial call sequences on one worker\<close>

text \<open>
  A serial client of one \<open>TriggerRecordBuilderData\<close> object issues \<open>add_assignment\<close> and
  \<open>extract_assignment\<close> calls one after the other.  A call that throws leaves the object
  as the call left it and the sequence goes on.  \<open>adds_when_free\<close> says that every
  \<open>add_assignment\<close> of the sequence is issued while the busy flag is clear, which is what
  the orchestrator does: it adds only to a worker that \<open>find_slot\<close> has just selected.
\<close>

datatype worker_call = Add AssignedTriggerDecision | Extract trigger_number_t

fun apply_call ::
  "worker_call \<Rightarrow> 'j TriggerRecordBuilderData \<Rightarrow> 'j TriggerRecordBuilderData" where
  "apply_call (Add a) w = snd (add_assignment a w)"
| "apply_call (Extract tn) w = snd (extract_assignment tn w)"

fun run_calls ::
  "worker_call list \<Rightarrow> 'j TriggerRecordBuilderData \<Rightarrow> 'j TriggerRecordBuilderData" where
  "run_calls [] w = w"
| "run_calls (c # cs) w = run_calls cs (apply_call c w)"

fun adds_when_free :: "worker_call list \<Rightarrow> 'j TriggerRecordBuilderData \<Rightarrow> bool" where
  "adds_when_free [] w = True"
| "adds_when_free (Add a # cs) w =
     (\<not> m_is_busy w \<and> adds_when_free cs (apply_call (Add a) w))"
| "adds_when_free (Extract tn # cs) w = adds_when_free cs (apply_call (Extract tn) w)"

definition capacity_inv :: "'j TriggerRecordBuilderData \<Rightarrow> bool" where
  "capacity_inv w =
     (m_free_threshold w \<le> m_busy_threshold w
      \<and> length (m_assigned_trigger_decisions w) \<le> m_busy_threshold w
      \<and> (m_is_busy w \<or> length (m_assigned_trigger_decisions w) < m_busy_threshold w))"

text \<open>An assignment of trigger number \<open>n\<close> to the worker \<open>trb\<close>, for the concrete runs.\<close>

definition assignment_of :: "nat \<Rightarrow> AssignedTriggerDecision" where
  "assignment_of n =
     \<lparr> decision = \<lparr> trigger_number = of_nat n, run_number = 1 \<rparr>,
       connection_name = ''trb'', assigned_time = 0 \<rparr>"

subsection \<open>The entries of the latency window in range\<close>

text \<open>
  The specification's side of \<open>average_latency\<close>: the window entries whose completion
  time is not before \<open>since\<close>, in window order.
\<close>

definition entries_since ::
  "time_point \<Rightarrow> 'j TriggerRecordBuilderData \<Rightarrow> (time_point \<times> microseconds) list" where
  "entries_since since w = filter (\<lambda>e. since \<le>s fst e) (m_latency_info w)"

text \<open>Workers with a given latency window or given assignments, for the concrete runs.\<close>

definition window_of :: "(time_point \<times> microseconds) list \<Rightarrow> unit TriggerRecordBuilderData" where
  "window_of li = (TriggerRecordBuilderData2 () ''trb'' 2)\<lparr>m_latency_info := li\<rparr>"

definition worker_with ::
  "AssignedTriggerDecision list \<Rightarrow> nat TriggerRecordBuilderData" where
  "worker_with as = (TriggerRecordBuilderData2 0 ''trb'' 2)\<lparr>m_assigned_trigger_decisions := as\<rparr>"

section \<open>DataFlowOrchestrator\<close>

subsection \<open>The registry: a std::map from connection names to workers\<close>

text \<open>
  \<open>m_dataflow_availability\<close> is a \<open>std::map\<close> keyed by connection name.  A \<open>std::map\<close>
  keeps its entries in key order, strings comparing byte by byte, so the model is the
  list of entries in increasing key order.
  \<^item> \<open>map_at\<close> is \<open>operator[]\<close>: it returns the entry's value and, when the key is absent,
    first inserts a default-constructed value at the key's place.  The default
    constructor of \<open>TriggerRecordBuilderData\<close> is declared in the header, which is not
    part of the sources; the value it constructs is the argument \<open>dflt\<close>.
  \<^item> \<open>map_store\<close> writes through the reference \<open>operator[]\<close> returned.
  \<^item> An iterator is the key of the entry it points to, \<open>None\<close> for \<open>end()\<close>;
    \<open>map_begin\<close> is \<open>begin()\<close> and \<open>map_next\<close> is \<open>++\<close>, the first larger key.
\<close>

type_synonym 'j registry = "(string \<times> 'j TriggerRecordBuilderData) list"

definition map_at ::
  "'j TriggerRecordBuilderData \<Rightarrow> string \<Rightarrow> 'j registry
     \<Rightarrow> 'j TriggerRecordBuilderData \<times> 'j registry" where
  "map_at dflt k m =
     (case map_of m k of
        Some w \<Rightarrow> (w, m)
      | None \<Rightarrow> (dflt, insort_key fst (k, dflt) m))"

definition map_store ::
  "string \<Rightarrow> 'j TriggerRecordBuilderData \<Rightarrow> 'j registry \<Rightarrow> 'j registry" where
  "map_store k w m = map (\<lambda>(k', v). if k' = k then (k', w) else (k', v)) m"

definition map_begin :: "'j registry \<Rightarrow> string option" where
  "map_begin m = (case m of [] \<Rightarrow> None | (k, w) # rest \<Rightarrow> Some k)"

definition map_next :: "string \<Rightarrow> 'j registry \<Rightarrow> string option" where
  "map_next k m = List.find (\<lambda>k'. k < k') (map fst m)"

subsection \<open>State of the module\<close>

text \<open>
  The state holds the members of \<open>DataFlowOrchestrator\<close> that selection, dispatch and token
  handling read or write, the input queue, and the messages given to \<open>ers\<close> and \<open>TLOG\<close>
  (\<open>issues\<close>), in order.  The three time counters and the condition variable carry no
  decision of the code and are left out.  \<open>TriggerDecisionToken\<close> and the configuration
  record name the fields the code reads; the token's \<open>run_number\<close> and \<open>trigger_number\<close>
  are \<open>token_run_number\<close> and \<open>token_trigger_number\<close> here, the names without prefix
  being those of the decision's fields.
\<close>

datatype issue =
    Warning_AssignedTriggerDecisionNotFound trigger_number_t string
  | Warning_OperationFailed string
  | Error_TriggerRecordBuilderAppUpdate string
  | Log_TriggerRecordBuilderAppUpdate string

record TriggerDecisionToken =
  token_run_number :: run_number_t
  token_trigger_number :: trigger_number_t
  decision_destination :: string

record ConfParams =
  dataflow_applications :: "(string \<times> nat) list"
  td_send_retries :: int

record 'j DataFlowOrchestrator =
  m_dataflow_availability :: "'j registry"
  m_dataflow_availability_iter :: "string option"
  m_run_number :: run_number_t
  m_td_send_retries :: int
  m_received_tokens :: nat
  m_sent_decisions :: nat
  m_received_decisions :: nat
  m_metadata_function :: "('j \<Rightarrow> 'j) option"
  m_trigger_decision_queue :: "TriggerDecision list"
  issues :: "issue list"

subsection \<open>do_conf\<close>

text \<open>
  \<open>do_conf\<close> assigns, for every configured application, a worker constructed from its
  connection name and capacity to \<open>m_dataflow_availability[name]\<close>, and then sets the
  cursor to \<open>begin()\<close>.  The metadata of a constructed worker is that of a
  default-constructed one.
\<close>

fun conf_apps ::
  "'j TriggerRecordBuilderData \<Rightarrow> (string \<times> nat) list \<Rightarrow> 'j registry \<Rightarrow> 'j registry" where
  "conf_apps dflt [] m = m"
| "conf_apps dflt (app # apps) m =
     (case map_at dflt (fst app) m of (w, m1) \<Rightarrow>
        conf_apps dflt apps
          (map_store (fst app) (TriggerRecordBuilderData2 (m_metadata dflt) (fst app) (snd app)) m1))"

definition do_conf ::
  "'j TriggerRecordBuilderData \<Rightarrow> ConfParams \<Rightarrow> 'j DataFlowOrchestrator
     \<Rightarrow> 'j DataFlowOrchestrator" where
  "do_conf dflt parsed_conf s =
     (let m = conf_apps dflt (dataflow_applications parsed_conf) (m_dataflow_availability s)
      in s\<lparr>m_dataflow_availability := m,
            m_dataflow_availability_iter := map_begin m,
            m_td_send_retries := td_send_retries parsed_conf\<rparr>)"

subsection \<open>find_slot\<close>

text \<open>
  The loop of \<open>find_slot\<close> runs while no assignment has been made and \<open>tries\<close> is below
  the size of the registry.  Each pass increments the cursor, wraps it from \<open>end()\<close> to
  \<open>begin()\<close>, asks the worker there for a slot and, if it has one, has it make the
  assignment (which reads the clock: the argument \<open>now\<close>).  Incrementing or
  dereferencing a cursor that points to no entry has no defined result:
  \<open>InvalidIterator\<close>.
\<close>

function find_slot_loop ::
  "TriggerDecision \<Rightarrow> time_point \<Rightarrow> nat \<Rightarrow> 'j DataFlowOrchestrator
     \<Rightarrow> error + (AssignedTriggerDecision option \<times> 'j DataFlowOrchestrator)" where
  "find_slot_loop d now tries s =
     (if tries < length (m_dataflow_availability s) then
        (case m_dataflow_availability_iter s of
           None \<Rightarrow> Inl InvalidIterator
         | Some k \<Rightarrow>
            (case map_of (m_dataflow_availability s) k of
               None \<Rightarrow> Inl InvalidIterator
             | Some w0 \<Rightarrow>
                (let it1 = map_next k (m_dataflow_availability s);
                     it2 = (if it1 = None then map_begin (m_dataflow_availability s) else it1)
                 in (case it2 of
                       None \<Rightarrow> Inl InvalidIterator
                     | Some k' \<Rightarrow>
                        (case map_of (m_dataflow_availability s) k' of
                           None \<Rightarrow> Inl InvalidIterator
                         | Some w \<Rightarrow>
                            (if has_slot w
                             then Inr (Some (make_assignment d now w),
                                       s\<lparr>m_dataflow_availability_iter := it2\<rparr>)
                             else find_slot_loop d now (tries + 1)
                                    (s\<lparr>m_dataflow_availability_iter := it2\<rparr>)))))))
      else Inr (None, s))"
  by pat_completeness auto
termination
  by (relation "measure (\<lambda>(d, now, tries, s). length (m_dataflow_availability s) - tries)") auto

declare find_slot_loop.simps [simp del]

definition find_slot ::
  "TriggerDecision \<Rightarrow> time_point \<Rightarrow> 'j DataFlowOrchestrator
     \<Rightarrow> error + (AssignedTriggerDecision option \<times> 'j DataFlowOrchestrator)" where
  "find_slot d now s = find_slot_loop d now 0 s"

subsection \<open>dispatch and assign_trigger_decision\<close>

text \<open>
  \<open>dispatch\<close> first serialises \<open>assignment->decision\<close>, which dereferences the pointer it
  was given.  Its do-while loop then sends, counts \<open>retries\<close> down and goes on while the
  send failed, the run flag is set and retries are left.  The transport and the run flag
  belong to the environment: \<open>send_ok k\<close> says whether the \<open>k\<close>-th \<open>send_to\<close> of this call
  returns normally, \<open>run_flag k\<close> is the value of the \<open>k\<close>-th load of the flag in this call.
\<close>

function dispatch_loop ::
  "string \<Rightarrow> (nat \<Rightarrow> bool) \<Rightarrow> (nat \<Rightarrow> bool) \<Rightarrow> nat \<Rightarrow> int \<Rightarrow> 'j DataFlowOrchestrator
     \<Rightarrow> bool \<times> 'j DataFlowOrchestrator" where
  "dispatch_loop name send_ok run_flag k retries s =
     (if send_ok k then (True, s\<lparr>m_sent_decisions := m_sent_decisions s + 1\<rparr>)
      else
        (let s1 = s\<lparr>issues := issues s @ [Warning_OperationFailed name]\<rparr>
         in if run_flag k \<and> retries - 1 > 0
            then dispatch_loop name send_ok run_flag (k + 1) (retries - 1) s1
            else (False, s1)))"
  by pat_completeness auto
termination
  by (relation "measure (\<lambda>(name, send_ok, run_flag, k, retries, s). nat retries)") auto

declare dispatch_loop.simps [simp del]

definition dispatch ::
  "AssignedTriggerDecision option \<Rightarrow> (nat \<Rightarrow> bool) \<Rightarrow> (nat \<Rightarrow> bool) \<Rightarrow> 'j DataFlowOrchestrator
     \<Rightarrow> error + (bool \<times> 'j DataFlowOrchestrator)" where
  "dispatch assignment send_ok run_flag s =
     (case assignment of
        None \<Rightarrow> Inl NullPointerDereference
      | Some a \<Rightarrow> Inr (dispatch_loop (connection_name a) send_ok run_flag 0 (m_td_send_retries s) s))"

definition assign_trigger_decision ::
  "'j TriggerRecordBuilderData \<Rightarrow> AssignedTriggerDecision \<Rightarrow> 'j DataFlowOrchestrator
     \<Rightarrow> error + 'j DataFlowOrchestrator" where
  "assign_trigger_decision dflt a s =
     (case map_at dflt (connection_name a) (m_dataflow_availability s) of (w, m1) \<Rightarrow>
        (case add_assignment a w of
           (Inl e, w') \<Rightarrow> Inl e
         | (Inr u, w') \<Rightarrow>
             Inr (s\<lparr>m_dataflow_availability := map_store (connection_name a) w' m1\<rparr>)))"

subsection \<open>do_work\<close>

text \<open>
  \<open>do_work_assign_pass\<close> is one pass through the body of the innermost loop of \<open>do_work\<close>,
  which assigns one decision: select, \<open>continue\<close> when nothing was selected, send, and
  either record the assignment and \<open>break\<close>, or report the error, set the worker's
  \<open>in_error\<close> flag and go round again.  An exception of \<open>add_assignment\<close> is not caught
  there and is the result of the pass.

  \<open>do_work_drain\<close> is the loop after the run flag has cleared: while a decision can be
  popped, select and send, ignoring the result of the send.  The flag stays clear from
  then on, so every load of it in \<open>dispatch\<close> gives false.  \<open>clock i\<close> and \<open>send_ok i\<close> are
  the clock reading and the transport's answers for the \<open>i\<close>-th decision drained.
\<close>

datatype loop_control = Continue | Break

definition do_work_assign_pass ::
  "'j TriggerRecordBuilderData \<Rightarrow> TriggerDecision \<Rightarrow> time_point \<Rightarrow> (nat \<Rightarrow> bool) \<Rightarrow> (nat \<Rightarrow> bool)
     \<Rightarrow> 'j DataFlowOrchestrator \<Rightarrow> error + (loop_control \<times> 'j DataFlowOrchestrator)" where
  "do_work_assign_pass dflt d now send_ok run_flag s =
     (case find_slot d now s of
        Inl e \<Rightarrow> Inl e
      | Inr (None, s1) \<Rightarrow> Inr (Continue, s1)
      | Inr (Some a, s1) \<Rightarrow>
         (case dispatch (Some a) send_ok run_flag s1 of
            Inl e \<Rightarrow> Inl e
          | Inr (True, s2) \<Rightarrow>
              (case assign_trigger_decision dflt a s2 of
                 Inl e \<Rightarrow> Inl e
               | Inr s3 \<Rightarrow> Inr (Break, s3))
          | Inr (False, s2) \<Rightarrow>
              (let s3 = s2\<lparr>issues := issues s2
                             @ [Error_TriggerRecordBuilderAppUpdate (connection_name a)]\<rparr>
               in (case map_at dflt (connection_name a) (m_dataflow_availability s3) of
                     (w, m1) \<Rightarrow>
                       Inr (Continue,
                            s3\<lparr>m_dataflow_availability :=
                                 map_store (connection_name a) (set_in_error True w) m1\<rparr>)))))"

definition extract_a_decision ::
  "'j DataFlowOrchestrator \<Rightarrow> TriggerDecision option \<times> 'j DataFlowOrchestrator" where
  "extract_a_decision s =
     (case m_trigger_decision_queue s of
        [] \<Rightarrow> (None, s)
      | d # q \<Rightarrow> (Some d, s\<lparr>m_trigger_decision_queue := q,
                              m_received_decisions := m_received_decisions s + 1\<rparr>))"

function do_work_drain ::
  "(nat \<Rightarrow> time_point) \<Rightarrow> (nat \<Rightarrow> nat \<Rightarrow> bool) \<Rightarrow> nat \<Rightarrow> 'j DataFlowOrchestrator
     \<Rightarrow> error + 'j DataFlowOrchestrator" where
  "do_work_drain clock send_ok i s =
     (case extract_a_decision s of
        (None, s1) \<Rightarrow> Inr s1
      | (Some d, s1) \<Rightarrow>
         (case find_slot d (clock i) s1 of
            Inl e \<Rightarrow> Inl e
          | Inr (assignment, s2) \<Rightarrow>
             (case dispatch assignment (send_ok i) (\<lambda>n. False) s2 of
                Inl e \<Rightarrow> Inl e
              | Inr (sent, s3) \<Rightarrow> do_work_drain clock send_ok (i + 1) s3)))"
  by pat_completeness auto
termination
proof (relation "measure (\<lambda>(clock, send_ok, i, s). length (m_trigger_decision_queue s))",
    goal_cases)
  case 1
  show ?case by simp
next
  case (2 clock send_ok i s x y x2 b xa ya ba xb yb)
  have fs: "m_trigger_decision_queue s' = m_trigger_decision_queue s0"
    if "find_slot_loop d0 now t s0 = Inr (r0, s')"
    for d0 now t and s0 s' :: "'j DataFlowOrchestrator" and r0
    using that
  proof (induction d0 now t s0 rule: find_slot_loop.induct)
    case (1 d now tries s)
    from "1.prems" show ?case
      apply (subst (asm) find_slot_loop.simps)
      apply (auto split: if_splits option.splits simp: Let_def dest!: "1.IH")
      done
  qed
  have dl: "m_trigger_decision_queue (snd (dispatch_loop name so rf k rt s0))
      = m_trigger_decision_queue s0"
    for name so rf k rt and s0 :: "'j DataFlowOrchestrator"
  proof (induction name so rf k rt s0 rule: dispatch_loop.induct)
    case (1 name send_ok run_flag k retries s)
    then show ?case
      by (subst dispatch_loop.simps) (auto simp: Let_def)
  qed
  from 2(1,2) have "length (m_trigger_decision_queue y) < length (m_trigger_decision_queue s)"
    by (auto simp: extract_a_decision_def split: list.splits)
  moreover from 2(3,4) have "m_trigger_decision_queue ya = m_trigger_decision_queue y"
    by (auto simp: find_slot_def dest: fs)
  moreover from 2(5,6) have "yb = snd (dispatch_loop (connection_name (the xa)) (send_ok i)
      (\<lambda>n. False) 0 (m_td_send_retries ya) ya)"
    by (cases xa) (auto simp: dispatch_def dest: arg_cong [where f = snd])
  then have "m_trigger_decision_queue yb = m_trigger_decision_queue ya"
    by (simp only: dl)
  ultimately show ?case
    by simp
qed

declare do_work_drain.simps [simp del]

subsection \<open>receive_trigger_complete_token\<close>

text \<open>
  The callback counts the token and, for a token of the current run, calls
  \<open>complete_assignment\<close> on \<open>m_dataflow_availability[token.decision_destination]\<close>, turns
  its exception into a warning, and clears the \<open>in_error\<close> flag of that entry (with a
  log message) if it is set.  The clock reading of \<open>complete_assignment\<close> is the argument
  \<open>now\<close>.
\<close>

definition receive_trigger_complete_token ::
  "'j TriggerRecordBuilderData \<Rightarrow> time_point \<Rightarrow> TriggerDecisionToken \<Rightarrow> 'j DataFlowOrchestrator
     \<Rightarrow> 'j DataFlowOrchestrator" where
  "receive_trigger_complete_token dflt now token s =
     (let s1 = s\<lparr>m_received_tokens := m_received_tokens s + 1\<rparr>
      in if token_run_number token = m_run_number s1 then
           (case map_at dflt (decision_destination token) (m_dataflow_availability s1) of
              (w, m1) \<Rightarrow>
                (case complete_assignment (token_trigger_number token) (m_metadata_function s1) now w of
                   (r, w') \<Rightarrow>
                     (let s2 = s1\<lparr>m_dataflow_availability :=
                                     map_store (decision_destination token) w' m1,
                                  issues := issues s1 @
                                    (case r of
                                       Inl e \<Rightarrow> [Warning_AssignedTriggerDecisionNotFound
                                                    (token_trigger_number token) (m_connection_name w')]
                                     | Inr t \<Rightarrow> [])\<rparr>
                      in (case map_at dflt (decision_destination token) (m_dataflow_availability s2) of
                            (w2, m2) \<Rightarrow>
                              (if is_in_error w2
                               then s2\<lparr>issues := issues s2 @
                                         [Log_TriggerRecordBuilderAppUpdate (decision_destination token)],
                                       m_dataflow_availability :=
                                         map_store (decision_destination token) (set_in_error False w2) m2\<rparr>
                               else s2\<lparr>m_dataflow_availability := m2\<rparr>)))))
         else s1)"

subsection \<open>Runs of the orchestrator\<close>

text \<open>
  What happens to the module while it runs, as a sequence of events: a completion token
  arrives, the dispatcher makes one pass of its assignment loop, or it drains the queue.
  A run stops at the first event that faults.  \<open>token_for name run\<close> recognises the
  tokens of run \<open>run\<close> addressed to \<open>name\<close>; \<open>in_error_at\<close> and \<open>has_slot_at\<close> read a
  worker of the registry by name.
\<close>

datatype dfo_event =
    TokenReceived time_point TriggerDecisionToken
  | AssignPass TriggerDecision time_point "nat \<Rightarrow> bool" "nat \<Rightarrow> bool"
  | Drain "nat \<Rightarrow> time_point" "nat \<Rightarrow> nat \<Rightarrow> bool"

fun dfo_step ::
  "'j TriggerRecordBuilderData \<Rightarrow> dfo_event \<Rightarrow> 'j DataFlowOrchestrator
     \<Rightarrow> error + 'j DataFlowOrchestrator" where
  "dfo_step dflt (TokenReceived now token) s =
     Inr (receive_trigger_complete_token dflt now token s)"
| "dfo_step dflt (AssignPass d now send_ok run_flag) s =
     (case do_work_assign_pass dflt d now send_ok run_flag s of
        Inl e \<Rightarrow> Inl e
      | Inr (c, s') \<Rightarrow> Inr s')"
| "dfo_step dflt (Drain clock send_ok) s = do_work_drain clock send_ok 0 s"

fun dfo_run ::
  "'j TriggerRecordBuilderData \<Rightarrow> dfo_event list \<Rightarrow> 'j DataFlowOrchestrator
     \<Rightarrow> error + 'j DataFlowOrchestrator" where
  "dfo_run dflt [] s = Inr s"
| "dfo_run dflt (ev # evs) s =
     (case dfo_step dflt ev s of
        Inl e \<Rightarrow> Inl e
      | Inr s' \<Rightarrow> dfo_run dflt evs s')"

fun token_for :: "string \<Rightarrow> run_number_t \<Rightarrow> dfo_event \<Rightarrow> bool" where
  "token_for name run (TokenReceived now token) =
     (decision_destination token = name \<and> token_run_number token = run)"
| "token_for name run (AssignPass d now send_ok run_flag) = False"
| "token_for name run (Drain clock send_ok) = False"

definition in_error_at :: "string \<Rightarrow> 'j DataFlowOrchestrator \<Rightarrow> bool" where
  "in_error_at name s =
     (case map_of (m_dataflow_availability s) name of
        None \<Rightarrow> False
      | Some w \<Rightarrow> is_in_error w)"

definition has_slot_at :: "string \<Rightarrow> 'j DataFlowOrchestrator \<Rightarrow> bool" where
  "has_slot_at name s =
     (case map_of (m_dataflow_availability s) name of
        None \<Rightarrow> False
      | Some w \<Rightarrow> has_slot w)"

text \<open>
  \<open>named_by_key\<close> says that every worker of the registry carries the key it is stored
  under as its connection name, which is how \<open>do_conf\<close> builds them.
\<close>

definition named_by_key :: "'j registry \<Rightarrow> bool" where
  "named_by_key m = list_all (\<lambda>e. m_connection_name (snd e) = fst e) m"

subsection \<open>Concrete states\<close>

text \<open>
  A module in run 1 with three send attempts configured, and workers of capacity 1 that
  are free, busy (one assignment) or in error, for the concrete runs.
\<close>

definition dfo_with ::
  "unit registry \<Rightarrow> string option \<Rightarrow> TriggerDecision list \<Rightarrow> unit DataFlowOrchestrator" where
  "dfo_with m it q =
     \<lparr> m_dataflow_availability = m,
       m_dataflow_availability_iter = it,
       m_run_number = 1,
       m_td_send_retries = 3,
       m_received_tokens = 0,
       m_sent_decisions = 0,
       m_received_decisions = 0,
       m_metadata_function = None,
       m_trigger_decision_queue = q,
       issues = [] \<rparr>"

definition free_worker :: "string \<Rightarrow> unit TriggerRecordBuilderData" where
  "free_worker name = TriggerRecordBuilderData2 () name 1"

definition busy_worker :: "string \<Rightarrow> unit TriggerRecordBuilderData" where
  "busy_worker name = run_calls [Add (assignment_of 1)] (TriggerRecordBuilderData2 () name 1)"

definition errored_worker :: "string \<Rightarrow> unit TriggerRecordBuilderData" where
  "errored_worker name = set_in_error True (TriggerRecordBuilderData2 () name 1)"

definition decision_of :: "nat \<Rightarrow> TriggerDecision" where
  "decision_of n = \<lparr> trigger_number = of_nat n, run_number = 1 \<rparr>"

definition token_of :: "nat \<Rightarrow> string \<Rightarrow> TriggerDecisionToken" where
  "token_of n name =
     \<lparr> token_run_number = 1, token_trigger_number = of_nat n, decision_destination = name \<rparr>"

text \<open>A transport on which every send fails, and a run flag that stays set.\<close>

definition all_sends_fail :: "nat \<Rightarrow> bool" where
  "all_sends_fail k = False"

definition flag_stays_set :: "nat \<Rightarrow> bool" where
  "flag_stays_set k = True"

section \<open>Properties of TriggerRecordBuilderData\<close>

subsection \<open>Erasing the first match\<close>

lemma erase_first_find:
  "erase_first tn xs =
     (case List.find (\<lambda>a. trigger_number (decision a) = tn) xs of
        None \<Rightarrow> (None, xs) | Some a \<Rightarrow> (Some a, remove1 a xs))"
proof (induction xs)
  case Nil
  then show ?case by simp
next
  case (Cons x xs)
  show ?case
  proof (cases "trigger_number (decision x) = tn")
    case True
    then show ?thesis by simp
  next
    case False
    then have "\<And>a. List.find (\<lambda>a. trigger_number (decision a) = tn) xs = Some a \<Longrightarrow> x \<noteq> a"
      by (auto simp: find_Some_iff)
    with False Cons.IH show ?thesis
      by (auto split: option.splits)
  qed
qed

lemma erase_first_length: "length (snd (erase_first tn xs)) \<le> length xs"
  by (induction xs) (auto split: prod.splits)

lemma erase_first_None: "fst (erase_first tn xs) = None \<Longrightarrow> snd (erase_first tn xs) = xs"
  by (induction xs) (auto split: prod.splits if_splits)

subsection \<open>The busy flag after an extraction\<close>

text \<open>
  Claim C10.  Every call of \<open>extract_assignment\<close> evaluates the busy flag again before it
  returns, whether or not an assignment matched: the stored free threshold is left as it
  was, and if the number of assignments after the call is below it, the busy flag is
  clear on return.  When nothing matched, the list of assignments is unchanged.
\<close>

theorem extract_assignment_reevaluates_busy:
  assumes "extract_assignment tn w = (r, w')"
  shows "m_free_threshold w' = m_free_threshold w
    \<and> (length (m_assigned_trigger_decisions w') < m_free_threshold w \<longrightarrow> \<not> m_is_busy w')
    \<and> (r = None \<longrightarrow> m_assigned_trigger_decisions w' = m_assigned_trigger_decisions w)"
  using assms erase_first_None [of tn "m_assigned_trigger_decisions w"]
  by (auto simp: extract_assignment_def Let_def split: prod.splits if_splits)

theorem extract_assignment_reevaluates_busy_witness:
  "extract_assignment 7 ((TriggerRecordBuilderData2 () ''trb'' 2)\<lparr>m_is_busy := True\<rparr>)
     = (None, TriggerRecordBuilderData2 () ''trb'' 2)
   \<and> length (m_assigned_trigger_decisions (TriggerRecordBuilderData2 () ''trb'' 2))
       < m_free_threshold ((TriggerRecordBuilderData2 () ''trb'' 2)\<lparr>m_is_busy := True\<rparr>)
   \<and> \<not> m_is_busy (TriggerRecordBuilderData2 () ''trb'' 2)"
proof -
  have e: "extract_assignment 7 ((TriggerRecordBuilderData2 () ''trb'' 2)\<lparr>m_is_busy := True\<rparr>)
     = (None, TriggerRecordBuilderData2 () ''trb'' 2)"
    by (simp add: extract_assignment_def TriggerRecordBuilderData2_def)
  from extract_assignment_reevaluates_busy [OF e] e show ?thesis
    by (simp add: TriggerRecordBuilderData2_def)
qed

subsection \<open>add_assignment\<close>

text \<open>
  Claim C6.  \<open>add_assignment\<close> fails with \<open>NoSlotsAvailable\<close> exactly when the worker's
  \<open>in_error\<close> flag is set, and then leaves the object (the assignments and the busy flag
  with it) as it was.  Otherwise it appends the assignment at the end of the list and
  sets the busy flag if the new size has reached the busy threshold; a busy flag that
  was set stays set.
\<close>

theorem add_assignment_contract:
  "(m_in_error w \<longrightarrow>
      add_assignment a w =
        (Inl (NoSlotsAvailable (trigger_number (decision a)) (m_connection_name w)), w))
   \<and> (\<not> m_in_error w \<longrightarrow>
      add_assignment a w =
        (Inr (), w\<lparr>m_assigned_trigger_decisions := m_assigned_trigger_decisions w @ [a],
                   m_is_busy := (m_is_busy w
                      \<or> m_busy_threshold w \<le> length (m_assigned_trigger_decisions w) + 1)\<rparr>))"
  by (simp add: add_assignment_def is_in_error_def Let_def)

theorem add_assignment_contract_witness:
  "m_in_error ((TriggerRecordBuilderData2 () ''trb'' 1)\<lparr>m_in_error := True\<rparr>)
   \<and> add_assignment (assignment_of 1)
         ((TriggerRecordBuilderData2 () ''trb'' 1)\<lparr>m_in_error := True\<rparr>)
       = (Inl (NoSlotsAvailable 1 ''trb''),
          (TriggerRecordBuilderData2 () ''trb'' 1)\<lparr>m_in_error := True\<rparr>)
   \<and> \<not> m_in_error (TriggerRecordBuilderData2 () ''trb'' 1)
   \<and> add_assignment (assignment_of 1) (TriggerRecordBuilderData2 () ''trb'' 1)
       = (Inr (), (TriggerRecordBuilderData2 () ''trb'' 1)
            \<lparr>m_assigned_trigger_decisions := [assignment_of 1], m_is_busy := True\<rparr>)"
  using
    add_assignment_contract
      [of "(TriggerRecordBuilderData2 () ''trb'' 1)\<lparr>m_in_error := True\<rparr>" "assignment_of 1"]
    add_assignment_contract [of "TriggerRecordBuilderData2 () ''trb'' 1" "assignment_of 1"]
  by (simp add: TriggerRecordBuilderData2_def assignment_of_def)

subsection \<open>Hysteresis\<close>

text \<open>
  Claim C1.  The claim asks that a worker constructed with busy threshold 3 and free
  threshold 1 stays busy while its assignments go from 3 down to 2 and 1.  The
  three-argument constructor checks its \<open>free_threshold\<close> argument against the busy
  threshold and then stores the busy threshold in \<open>m_free_threshold\<close>.  So the worker
  constructed with 3 and 1 is the worker constructed with 3 alone: it is busy with three
  assignments, and the first extraction, which leaves two, clears the busy flag and gives
  the worker a slot again.
\<close>

theorem hysteresis_free_threshold_lost:
  "TriggerRecordBuilderData3 () ''trb'' 3 1 = Inr (TriggerRecordBuilderData2 () ''trb'' 3)
   \<and> m_is_busy (run_calls [Add (assignment_of 1), Add (assignment_of 2), Add (assignment_of 3)]
        (TriggerRecordBuilderData2 () ''trb'' 3))
   \<and> length (m_assigned_trigger_decisions
        (run_calls [Add (assignment_of 1), Add (assignment_of 2), Add (assignment_of 3), Extract 2]
           (TriggerRecordBuilderData2 () ''trb'' 3))) = 2
   \<and> \<not> m_is_busy
        (run_calls [Add (assignment_of 1), Add (assignment_of 2), Add (assignment_of 3), Extract 2]
           (TriggerRecordBuilderData2 () ''trb'' 3))
   \<and> has_slot
        (run_calls [Add (assignment_of 1), Add (assignment_of 2), Add (assignment_of 3), Extract 2]
           (TriggerRecordBuilderData2 () ''trb'' 3))"
  by (simp add: TriggerRecordBuilderData3_def TriggerRecordBuilderData2_def add_assignment_def
      extract_assignment_def is_in_error_def has_slot_def assignment_of_def)

subsection \<open>Capacity\<close>

text \<open>
  Claim C9, as stated: after every serial sequence of \<open>add_assignment\<close> and
  \<open>extract_assignment\<close> calls on a worker that started empty, the number of assignments
  is at most the busy threshold.  \<open>add_assignment\<close> looks at the \<open>in_error\<close> flag only, so
  two additions to a worker of threshold 1 leave two assignments.
\<close>

theorem capacity_counterexample:
  "\<not> length (m_assigned_trigger_decisions
        (run_calls [Add (assignment_of 1), Add (assignment_of 2)]
           (TriggerRecordBuilderData2 () ''trb'' 1)))
      \<le> m_busy_threshold (TriggerRecordBuilderData2 () ''trb'' 1)"
  by (simp add: TriggerRecordBuilderData2_def add_assignment_def is_in_error_def)

lemma capacity_inv_extract: "capacity_inv w \<Longrightarrow> capacity_inv (apply_call (Extract tn) w)"
  using erase_first_length [of tn "m_assigned_trigger_decisions w"]
  by (auto simp: capacity_inv_def extract_assignment_def Let_def split: prod.splits)

lemma capacity_inv_add:
  "capacity_inv w \<Longrightarrow> \<not> m_is_busy w \<Longrightarrow> capacity_inv (apply_call (Add a) w)"
  by (auto simp: capacity_inv_def add_assignment_def Let_def)

lemma capacity_inv_run:
  "capacity_inv w \<Longrightarrow> adds_when_free cs w \<Longrightarrow> capacity_inv (run_calls cs w)"
proof (induction cs arbitrary: w)
  case Nil
  then show ?case by simp
next
  case (Cons c cs)
  show ?case
  proof (cases c)
    case (Add a)
    with Cons.prems have "capacity_inv (apply_call c w)" "adds_when_free cs (apply_call c w)"
      using capacity_inv_add [of w a] by simp_all
    then show ?thesis using Cons.IH by simp
  next
    case (Extract tn)
    with Cons.prems have "capacity_inv (apply_call c w)" "adds_when_free cs (apply_call c w)"
      using capacity_inv_extract [of w tn] by simp_all
    then show ?thesis using Cons.IH by simp
  qed
qed

lemma apply_call_busy_threshold: "m_busy_threshold (apply_call c w) = m_busy_threshold w"
  by (cases c) (auto simp: add_assignment_def extract_assignment_def Let_def split: prod.splits)

lemma run_calls_busy_threshold: "m_busy_threshold (run_calls cs w) = m_busy_threshold w"
  by (induction cs arbitrary: w) (simp_all add: apply_call_busy_threshold)

text \<open>
  Claim C9, amended.  Starting from a worker with no assignments, a busy threshold of at
  least 1 and a free threshold not above it (every constructed worker with a positive
  threshold is one), after every serial sequence of \<open>extract_assignment\<close> calls and of
  \<open>add_assignment\<close> calls each issued while the busy flag is clear, the number of
  assignments is at most the busy threshold.
\<close>

theorem capacity_when_adds_respect_busy:
  assumes "m_assigned_trigger_decisions w = []"
    and "1 \<le> m_busy_threshold w"
    and "m_free_threshold w \<le> m_busy_threshold w"
    and "adds_when_free cs w"
  shows "length (m_assigned_trigger_decisions (run_calls cs w)) \<le> m_busy_threshold w
    \<and> m_busy_threshold (run_calls cs w) = m_busy_threshold w"
proof -
  have "capacity_inv w"
    using assms(1-3) by (simp add: capacity_inv_def)
  then have "capacity_inv (run_calls cs w)"
    using assms(4) by (rule capacity_inv_run)
  moreover have "m_busy_threshold (run_calls cs w) = m_busy_threshold w"
    by (rule run_calls_busy_threshold)
  ultimately show ?thesis
    by (simp add: capacity_inv_def)
qed

theorem capacity_when_adds_respect_busy_witness:
  "m_assigned_trigger_decisions (TriggerRecordBuilderData2 () ''trb'' 1) = []
   \<and> 1 \<le> m_busy_threshold (TriggerRecordBuilderData2 () ''trb'' 1)
   \<and> m_free_threshold (TriggerRecordBuilderData2 () ''trb'' 1)
        \<le> m_busy_threshold (TriggerRecordBuilderData2 () ''trb'' 1)
   \<and> adds_when_free [Add (assignment_of 1), Extract 1, Add (assignment_of 2)]
        (TriggerRecordBuilderData2 () ''trb'' 1)
   \<and> length (m_assigned_trigger_decisions
        (run_calls [Add (assignment_of 1), Extract 1, Add (assignment_of 2)]
           (TriggerRecordBuilderData2 () ''trb'' 1))) \<le> 1"
proof -
  have a: "m_assigned_trigger_decisions (TriggerRecordBuilderData2 () ''trb'' 1) = []"
    and b: "1 \<le> m_busy_threshold (TriggerRecordBuilderData2 () ''trb'' 1)"
    and c: "m_free_threshold (TriggerRecordBuilderData2 () ''trb'' 1)
        \<le> m_busy_threshold (TriggerRecordBuilderData2 () ''trb'' 1)"
    by (simp_all add: TriggerRecordBuilderData2_def)
  have d: "adds_when_free [Add (assignment_of 1), Extract 1, Add (assignment_of 2)]
        (TriggerRecordBuilderData2 () ''trb'' 1)"
    by (simp add: TriggerRecordBuilderData2_def add_assignment_def extract_assignment_def
        is_in_error_def assignment_of_def)
  from capacity_when_adds_respect_busy [OF a b c d] a b c d show ?thesis
    by (simp add: TriggerRecordBuilderData2_def)
qed

subsection \<open>complete_assignment\<close>

text \<open>
  Claim C5.  \<open>complete_assignment\<close> fails with \<open>AssignedTriggerDecisionNotFound\<close> exactly
  when no assignment of the worker has the trigger number.  Otherwise, with \<open>a\<close> the first
  assignment that has it: the call returns the service time, which is \<open>now\<close> minus the
  assignment's \<open>assigned_time\<close> in microseconds; \<open>a\<close> is removed from the assignments; the
  pair of \<open>now\<close> and the service time is appended to the latency window, and the oldest
  entry is dropped when that makes more than 1000; and the metadata function, when one is
  given, is applied to the worker's metadata.
\<close>

theorem complete_assignment_contract:
  "(fst (complete_assignment tn f now w)
       = Inl (AssignedTriggerDecisionNotFound tn (m_connection_name w))
      \<longleftrightarrow> (\<forall>a\<in>set (m_assigned_trigger_decisions w). trigger_number (decision a) \<noteq> tn))
   \<and> (\<forall>a. List.find (\<lambda>a. trigger_number (decision a) = tn) (m_assigned_trigger_decisions w) = Some a
      \<longrightarrow> fst (complete_assignment tn f now w)
            = Inr (duration_cast_microseconds (now - assigned_time a))
        \<and> m_assigned_trigger_decisions (snd (complete_assignment tn f now w))
            = remove1 a (m_assigned_trigger_decisions w)
        \<and> m_latency_info (snd (complete_assignment tn f now w))
            = (if length (m_latency_info w) + 1 > 1000
               then tl (m_latency_info w @ [(now, duration_cast_microseconds (now - assigned_time a))])
               else m_latency_info w @ [(now, duration_cast_microseconds (now - assigned_time a))])
        \<and> m_metadata (snd (complete_assignment tn f now w))
            = (case f of None \<Rightarrow> m_metadata w | Some g \<Rightarrow> g (m_metadata w)))"
proof (cases "List.find (\<lambda>a. trigger_number (decision a) = tn) (m_assigned_trigger_decisions w)")
  case None
  then have "\<forall>a\<in>set (m_assigned_trigger_decisions w). trigger_number (decision a) \<noteq> tn"
    by (auto simp: find_None_iff)
  moreover have "fst (complete_assignment tn f now w)
       = Inl (AssignedTriggerDecisionNotFound tn (m_connection_name w))"
    by (simp add: complete_assignment_def extract_assignment_def erase_first_find Let_def None)
  ultimately show ?thesis
    by (simp add: None)
next
  case (Some a)
  then have "a \<in> set (m_assigned_trigger_decisions w)" "trigger_number (decision a) = tn"
    by (auto simp: find_Some_iff)
  then have "\<not> (\<forall>a\<in>set (m_assigned_trigger_decisions w). trigger_number (decision a) \<noteq> tn)"
    by blast
  moreover have "fst (complete_assignment tn f now w)
       = Inr (duration_cast_microseconds (now - assigned_time a))"
    and "m_assigned_trigger_decisions (snd (complete_assignment tn f now w))
            = remove1 a (m_assigned_trigger_decisions w)"
    and "m_latency_info (snd (complete_assignment tn f now w))
            = (if length (m_latency_info w) + 1 > 1000
               then tl (m_latency_info w @ [(now, duration_cast_microseconds (now - assigned_time a))])
               else m_latency_info w @ [(now, duration_cast_microseconds (now - assigned_time a))])"
    and "m_metadata (snd (complete_assignment tn f now w))
            = (case f of None \<Rightarrow> m_metadata w | Some g \<Rightarrow> g (m_metadata w))"
    by (simp_all add: complete_assignment_def extract_assignment_def erase_first_find Let_def Some
        split: option.splits)
  ultimately show ?thesis
    by (simp add: Some)
qed

theorem complete_assignment_contract_witness:
  "List.find (\<lambda>a. trigger_number (decision a) = 2)
      (m_assigned_trigger_decisions (worker_with [assignment_of 1, assignment_of 2]))
     = Some (assignment_of 2)
   \<and> fst (complete_assignment 2 (Some Suc) 5000 (worker_with [assignment_of 1, assignment_of 2]))
     = Inr 5
   \<and> m_assigned_trigger_decisions
        (snd (complete_assignment 2 (Some Suc) 5000 (worker_with [assignment_of 1, assignment_of 2])))
     = [assignment_of 1]
   \<and> m_latency_info
        (snd (complete_assignment 2 (Some Suc) 5000 (worker_with [assignment_of 1, assignment_of 2])))
     = [(5000, 5)]
   \<and> m_metadata
        (snd (complete_assignment 2 (Some Suc) 5000 (worker_with [assignment_of 1, assignment_of 2])))
     = 1
   \<and> List.find (\<lambda>a. trigger_number (decision a) = 2)
        (m_assigned_trigger_decisions (worker_with [assignment_of 1])) = None
   \<and> fst (complete_assignment 2 (Some Suc) 5000 (worker_with [assignment_of 1]))
     = Inl (AssignedTriggerDecisionNotFound 2 ''trb'')"
proof -
  let ?w2 = "worker_with [assignment_of 1, assignment_of 2]"
  let ?w1 = "worker_with [assignment_of 1]"
  have a: "List.find (\<lambda>a. trigger_number (decision a) = 2) (m_assigned_trigger_decisions ?w2)
     = Some (assignment_of 2)"
    by (simp add: worker_with_def assignment_of_def)
  have b: "\<forall>a\<in>set (m_assigned_trigger_decisions ?w1). trigger_number (decision a) \<noteq> 2"
    by (simp add: worker_with_def assignment_of_def)
  have d: "duration_cast_microseconds (5000 - assigned_time (assignment_of 2)) = 5"
    by (simp add: assignment_of_def duration_cast_microseconds_def signed_divide_int_def)
  have n: "m_connection_name ?w1 = ''trb''" "m_latency_info ?w2 = []" "m_metadata ?w2 = 0"
    "remove1 (assignment_of 2) (m_assigned_trigger_decisions ?w2) = [assignment_of 1]"
    by (simp_all add: worker_with_def TriggerRecordBuilderData2_def assignment_of_def)
  from complete_assignment_contract [of 2 "Some Suc" 5000 ?w2] a
  have r2: "fst (complete_assignment 2 (Some Suc) 5000 ?w2)
        = Inr (duration_cast_microseconds (5000 - assigned_time (assignment_of 2)))
      \<and> m_assigned_trigger_decisions (snd (complete_assignment 2 (Some Suc) 5000 ?w2))
        = remove1 (assignment_of 2) (m_assigned_trigger_decisions ?w2)
      \<and> m_latency_info (snd (complete_assignment 2 (Some Suc) 5000 ?w2))
        = (if length (m_latency_info ?w2) + 1 > 1000
           then tl (m_latency_info ?w2 @ [(5000, duration_cast_microseconds (5000 - assigned_time (assignment_of 2)))])
           else m_latency_info ?w2 @ [(5000, duration_cast_microseconds (5000 - assigned_time (assignment_of 2)))])
      \<and> m_metadata (snd (complete_assignment 2 (Some Suc) 5000 ?w2))
        = (case Some Suc of None \<Rightarrow> m_metadata ?w2 | Some g \<Rightarrow> g (m_metadata ?w2))"
    by blast
  from complete_assignment_contract [of 2 "Some Suc" 5000 ?w1] b
  have r1: "fst (complete_assignment 2 (Some Suc) 5000 ?w1)
        = Inl (AssignedTriggerDecisionNotFound 2 (m_connection_name ?w1))"
    by blast
  have c: "List.find (\<lambda>a. trigger_number (decision a) = 2) (m_assigned_trigger_decisions ?w1) = None"
    by (simp add: worker_with_def assignment_of_def)
  show ?thesis
    using a c r1 r2 by (simp only: d n) simp
qed

text \<open>The latency window never grows beyond 1000 entries.\<close>

lemma complete_assignment_window_bound:
  assumes "length (m_latency_info w) \<le> 1000"
  shows "length (m_latency_info (snd (complete_assignment tn f now w))) \<le> 1000"
proof -
  obtain r w1 where e: "extract_assignment tn w = (r, w1)"
    by (cases "extract_assignment tn w")
  then have "m_latency_info w1 = m_latency_info w"
    by (auto simp: extract_assignment_def Let_def split: prod.splits if_splits)
  then show ?thesis
    using assms by (auto simp: complete_assignment_def e Let_def split: option.splits)
qed

subsection \<open>average_latency\<close>

lemma latency_scan_takeWhile:
  "latency_scan since es sm cnt =
     (sm + sum_list (map snd (takeWhile (\<lambda>e. \<not> fst e <s since) es)),
      cnt + length (takeWhile (\<lambda>e. \<not> fst e <s since) es))"
  by (induction es arbitrary: sm cnt) (simp_all add: add.assoc)

lemma takeWhile_rev_sorted:
  assumes "sorted_wrt (\<lambda>a b. fst a \<le>s fst b) xs"
  shows "takeWhile (\<lambda>e. \<not> fst e <s since) (rev xs) = rev (filter (\<lambda>e. \<not> fst e <s since) xs)"
  using assms
proof (induction xs)
  case Nil
  then show ?case by simp
next
  case (Cons x xs)
  then have IH: "takeWhile (\<lambda>e. \<not> fst e <s since) (rev xs) = rev (filter (\<lambda>e. \<not> fst e <s since) xs)"
    by simp
  show ?case
  proof (cases "fst x <s since")
    case True
    then show ?thesis using IH by (simp add: takeWhile_append)
  next
    case False
    with Cons.prems have all: "\<forall>e\<in>set xs. \<not> fst e <s since"
      by (auto simp: word_sless_alt word_sle_eq)
    then show ?thesis using False by (simp add: takeWhile_append)
  qed
qed

lemma sint_sum_list:
  fixes ds :: "64 word list"
  assumes "\<forall>d\<in>set ds. 0 \<le> sint d" and "sum_list (map sint ds) < 2 ^ 63"
  shows "sint (sum_list ds) = sum_list (map sint ds)"
  using assms
proof (induction ds)
  case Nil
  then show ?case by simp
next
  case (Cons d ds)
  have nonneg: "0 \<le> sum_list (map sint ds)"
    using Cons.prems(1) by (intro sum_list_nonneg) auto
  have "0 \<le> sint d" using Cons.prems(1) by simp
  with Cons.prems(2) have "sum_list (map sint ds) < 2 ^ 63" by simp
  with Cons have IH: "sint (sum_list ds) = sum_list (map sint ds)" by simp
  have "sint (d + sum_list ds) = signed_take_bit 63 (sint d + sint (sum_list ds))"
    by (simp add: sint_word_ariths)
  also have "\<dots> = sint d + sint (sum_list ds)"
    using Cons.prems(2) nonneg \<open>0 \<le> sint d\<close> IH
    by (intro signed_take_bit_int_eq_self) simp_all
  finally show ?case using IH by simp
qed

lemma sint_div_count:
  fixes sm :: "64 word"
  assumes "0 \<le> sint sm" and "cnt < 2 ^ 64"
  shows "sint (sm div word_of_nat cnt) = sint sm div int cnt"
proof -
  have lt: "sint sm < 2 ^ 63"
    using sint_lt [of sm] by simp
  have u: "uint sm = sint sm"
    using assms(1) lt by (simp add: uint_sint take_bit_int_eq_self)
  have c: "uint (word_of_nat cnt :: 64 word) = int cnt"
    using assms(2) by (simp add: unsigned_of_nat take_bit_nat_eq_self)
  have q: "uint (sm div word_of_nat cnt) = sint sm div int cnt"
    by (simp add: uint_div u c)
  have n: "sint sm div int cnt = int (nat (sint sm) div cnt)"
    using assms(1) by (simp add: zdiv_int)
  have "nat (sint sm) div cnt \<le> nat (sint sm)"
    by simp
  then have "sint sm div int cnt \<le> sint sm"
    using assms(1) n by linarith
  moreover have "0 \<le> sint sm div int cnt"
    using n by simp
  ultimately have "signed_take_bit 63 (sint sm div int cnt) = sint sm div int cnt"
    using lt by (intro signed_take_bit_int_eq_self) simp_all
  then show ?thesis
    using q by (simp add: sint_uint)
qed

lemma average_latency_entries:
  assumes "sorted_wrt (\<lambda>a b. fst a \<le>s fst b) (m_latency_info w)"
  shows "average_latency since w =
     (if entries_since since w = [] then Inl DivisionByZero
      else Inr (sum_list (map snd (entries_since since w))
                  div word_of_nat (length (entries_since since w))))"
proof -
  have eq: "(\<lambda>e::time_point \<times> microseconds. \<not> fst e <s since) = (\<lambda>e. since \<le>s fst e)"
    by (auto simp: word_sless_alt word_sle_eq)
  have "takeWhile (\<lambda>e. \<not> fst e <s since) (rev (m_latency_info w))
      = rev (entries_since since w)"
    using takeWhile_rev_sorted [OF assms, of since] by (simp add: entries_since_def eq)
  then show ?thesis
    by (simp add: average_latency_def latency_scan_takeWhile rev_map [symmetric])
qed

text \<open>
  Claim C4.  On a latency window ordered by completion time (and of at most 1000
  entries, as \<open>complete_assignment\<close> keeps it), the scan from the newest entry selects
  exactly the entries whose completion time is not before \<open>since\<close>.  When there is
  none, the division by the zero count has no defined result.  When there is one, and
  the service times selected are not negative and their sum fits the signed 64-bit
  count, \<open>average_latency\<close> returns their arithmetic mean in whole microseconds: their
  sum divided by their number.
\<close>

theorem average_latency_mean:
  assumes "sorted_wrt (\<lambda>a b. fst a \<le>s fst b) (m_latency_info w)"
    and "length (m_latency_info w) \<le> 1000"
  shows "(entries_since since w = [] \<longrightarrow> average_latency since w = Inl DivisionByZero)
    \<and> (entries_since since w \<noteq> []
        \<and> (\<forall>e\<in>set (entries_since since w). 0 \<le> sint (snd e))
        \<and> sum_list (map (\<lambda>e. sint (snd e)) (entries_since since w)) < 2 ^ 63
       \<longrightarrow> (\<exists>r. average_latency since w = Inr r
              \<and> sint r = sum_list (map (\<lambda>e. sint (snd e)) (entries_since since w))
                           div int (length (entries_since since w))))"
proof (intro conjI impI)
  assume "entries_since since w = []"
  then show "average_latency since w = Inl DivisionByZero"
    by (simp add: average_latency_entries [OF assms(1)])
next
  let ?sel = "entries_since since w"
  assume h: "?sel \<noteq> [] \<and> (\<forall>e\<in>set ?sel. 0 \<le> sint (snd e))
        \<and> sum_list (map (\<lambda>e. sint (snd e)) ?sel) < 2 ^ 63"
  have "length ?sel \<le> length (m_latency_info w)"
    by (simp add: entries_since_def)
  with assms(2) have cnt: "length ?sel < 2 ^ 64" by simp
  have m: "map sint (map snd ?sel) = map (\<lambda>e. sint (snd e)) ?sel"
    by simp
  have s: "sint (sum_list (map snd ?sel)) = sum_list (map (\<lambda>e. sint (snd e)) ?sel)"
    using sint_sum_list [of "map snd ?sel"] h by (simp add: m comp_def)
  have "0 \<le> sum_list (map (\<lambda>e. sint (snd e)) ?sel)"
    using h by (intro sum_list_nonneg) auto
  then have "0 \<le> sint (sum_list (map snd ?sel))"
    using s by simp
  then have "sint (sum_list (map snd ?sel) div word_of_nat (length ?sel))
      = sum_list (map (\<lambda>e. sint (snd e)) ?sel) div int (length ?sel)"
    using sint_div_count [OF _ cnt] s by simp
  then show "\<exists>r. average_latency since w = Inr r
      \<and> sint r = sum_list (map (\<lambda>e. sint (snd e)) ?sel) div int (length ?sel)"
    using h by (simp add: average_latency_entries [OF assms(1)])
qed

theorem average_latency_mean_witness:
  "sorted_wrt (\<lambda>a b. fst a \<le>s fst b) (m_latency_info (window_of [(1000, 4), (2000, 7), (3000, 10)]))
   \<and> length (m_latency_info (window_of [(1000, 4), (2000, 7), (3000, 10)])) \<le> 1000
   \<and> entries_since 2000 (window_of [(1000, 4), (2000, 7), (3000, 10)]) = [(2000, 7), (3000, 10)]
   \<and> (\<exists>r. average_latency 2000 (window_of [(1000, 4), (2000, 7), (3000, 10)]) = Inr r \<and> sint r = 8)
   \<and> entries_since 4000 (window_of [(1000, 4), (2000, 7), (3000, 10)]) = []
   \<and> average_latency 4000 (window_of [(1000, 4), (2000, 7), (3000, 10)]) = Inl DivisionByZero"
proof -
  let ?w = "window_of [(1000, 4), (2000, 7), (3000, 10)]"
  have a: "sorted_wrt (\<lambda>a b. fst a \<le>s fst b) (m_latency_info ?w)"
    by (simp add: window_of_def)
  have b: "length (m_latency_info ?w) \<le> 1000"
    by (simp add: window_of_def)
  have c: "entries_since 2000 ?w = [(2000, 7), (3000, 10)]"
    by (simp add: window_of_def entries_since_def)
  have d: "entries_since 4000 ?w = []"
    by (simp add: window_of_def entries_since_def)
  from average_latency_mean [OF a b, of 2000] average_latency_mean [OF a b, of 4000] a b c d
  show ?thesis by simp
qed

section \<open>Properties of the DataFlowOrchestrator\<close>

subsection \<open>Round-robin selection\<close>









lemma workers_slots:
  "has_slot (free_worker n)" "\<not> has_slot (busy_worker n)" "\<not> has_slot (errored_worker n)"
  by (simp_all add: free_worker_def busy_worker_def errored_worker_def has_slot_def
      TriggerRecordBuilderData2_def add_assignment_def is_in_error_def set_in_error_def)


subsection \<open>The shutdown drain\<close>

text \<open>
  Claim C3.  The claim asks that the drain completes without fault for every remaining
  decision, also when no worker has a slot.  The drain loop passes what \<open>find_slot\<close>
  returns straight to \<open>dispatch\<close>, without the test for a null pointer that the main loop
  makes.  With one busy worker and one decision left in the queue, \<open>find_slot\<close> returns no
  assignment and \<open>dispatch\<close> dereferences the null pointer.
\<close>

theorem drain_null_assignment_faults:
  "\<not> has_slot (busy_worker ''trb'')
   \<and> find_slot (decision_of 2) (clock 0)
        ((dfo_with [(''trb'', busy_worker ''trb'')] (Some ''trb'') [])\<lparr>m_received_decisions := 1\<rparr>)
       = Inr (None,
          (dfo_with [(''trb'', busy_worker ''trb'')] (Some ''trb'') [])\<lparr>m_received_decisions := 1\<rparr>)
   \<and> do_work_drain clock send_ok 0
        (dfo_with [(''trb'', busy_worker ''trb'')] (Some ''trb'') [decision_of 2])
       = Inl NullPointerDereference"
proof -
  let ?s = "(dfo_with [(''trb'', busy_worker ''trb'')] (Some ''trb'') [])\<lparr>m_received_decisions := 1\<rparr>"
  have f: "find_slot (decision_of 2) (clock 0) ?s = Inr (None, ?s)"
    by (simp add: find_slot_def find_slot_loop.simps [of _ _ 0] find_slot_loop.simps [of _ _ "Suc 0"]
        dfo_with_def map_next_def map_begin_def workers_slots)
  have q: "extract_a_decision (dfo_with [(''trb'', busy_worker ''trb'')] (Some ''trb'') [decision_of 2])
      = (Some (decision_of 2), ?s)"
    by (simp add: extract_a_decision_def dfo_with_def)
  have d: "do_work_drain clock send_ok 0
        (dfo_with [(''trb'', busy_worker ''trb'')] (Some ''trb'') [decision_of 2])
       = Inl NullPointerDereference"
    by (subst do_work_drain.simps) (simp only: q f dispatch_def prod.case option.case sum.case)
  from f d show ?thesis
    by (simp add: workers_slots)
qed

subsection \<open>Lookups in the registry\<close>

lemma map_of_insort_key:
  fixes m :: "'j registry"
  shows "map_of m k = None \<Longrightarrow>
    map_of (insort_key fst (k, v) m) k' = (if k' = k then Some v else map_of m k')"
  by (induction m) (auto split: if_splits)

lemma map_of_map_at:
  fixes m :: "'j registry"
  shows "map_of (snd (map_at dflt k m)) k' = (if k' = k then Some (fst (map_at dflt k m)) else map_of m k')"
  by (auto simp: map_at_def map_of_insort_key split: option.splits)

lemma map_of_map_store:
  fixes m :: "'j registry"
  shows "map_of (map_store k w m) k' = (if k' = k \<and> map_of m k \<noteq> None then Some w else map_of m k')"
  by (induction m) (auto simp: map_store_def)

lemma map_at_existing:
  fixes m :: "'j registry"
  shows "map_of m k = Some w \<Longrightarrow> map_at dflt k m = (w, m)"
  by (simp add: map_at_def)

lemma registry_modify:
  fixes m :: "'j registry"
  assumes "map_at dflt k m = (w, m1)"
  shows "map_of (map_store k w' m1) k' = (if k' = k then Some w' else map_of m k')"
  using map_of_map_at [of dflt k m k'] map_of_map_at [of dflt k m k] assms
  by (simp add: map_of_map_store)

lemma keys_map_store:
  fixes m :: "'j registry"
  shows "map fst (map_store k w m) = map fst m"
  by (induction m) (auto simp: map_store_def)

lemma keys_map_at:
  fixes m :: "'j registry"
  shows "map fst (snd (map_at dflt k m))
    = (if map_of m k = None then insort k (map fst m) else map fst m)"
proof -
  have "map fst (insort_key fst (k, dflt) m) = insort k (map fst m)"
    by (induction m) auto
  then show ?thesis
    by (auto simp: map_at_def split: option.splits)
qed

lemma receive_trigger_complete_token_keys:
  assumes "token_run_number token = m_run_number s"
  shows "map fst (m_dataflow_availability (receive_trigger_complete_token dflt now token s))
    = (if map_of (m_dataflow_availability s) (decision_destination token) = None
       then insort (decision_destination token) (map fst (m_dataflow_availability s))
       else map fst (m_dataflow_availability s))"
proof -
  let ?k = "decision_destination token"
  let ?m = "m_dataflow_availability s"
  obtain w m1 where a: "map_at dflt ?k ?m = (w, m1)"
    by (cases "map_at dflt ?k ?m")
  obtain r w' where c: "complete_assignment (token_trigger_number token) (m_metadata_function s) now w = (r, w')"
    by (cases "complete_assignment (token_trigger_number token) (m_metadata_function s) now w")
  have l: "map_of (map_store ?k w' m1) ?k = Some w'"
    using registry_modify [OF a] by simp
  have k1: "map fst m1 = (if map_of ?m ?k = None then insort ?k (map fst ?m) else map fst ?m)"
    using keys_map_at [of dflt ?k ?m] a by simp
  show ?thesis
    using assms
    by (simp add: receive_trigger_complete_token_def a c Let_def map_at_existing [OF l]
        keys_map_store k1)
qed

subsection \<open>The registry after configuration\<close>

text \<open>
  \<open>do_conf\<close> leaves the registry in key order with the cursor at its first entry.
\<close>

lemma strict_sorted_insort:
  fixes ks :: "string list"
  assumes "sorted_wrt (<) ks" and "k \<notin> set ks"
  shows "sorted_wrt (<) (insort k ks)"
  using assms strict_sorted_iff [of ks] strict_sorted_iff [of "insort k ks"]
  by (simp add: sorted_insort distinct_insort)

lemma conf_apps_sorted:
  fixes m :: "'j registry"
  assumes "sorted_wrt (<) (map fst m)"
  shows "sorted_wrt (<) (map fst (conf_apps dflt apps m))"
  using assms
proof (induction apps arbitrary: m)
  case Nil
  then show ?case by simp
next
  case (Cons app apps)
  obtain w m1 where a: "map_at dflt (fst app) m = (w, m1)"
    by (cases "map_at dflt (fst app) m")
  have "sorted_wrt (<) (map fst m1)"
  proof (cases "map_of m (fst app)")
    case None
    then have "fst app \<notin> set (map fst m)"
      by (simp add: map_of_eq_None_iff)
    then show ?thesis
      using keys_map_at [of dflt "fst app" m] a None Cons.prems
      by (simp add: strict_sorted_insort)
  next
    case (Some v)
    then show ?thesis
      using keys_map_at [of dflt "fst app" m] a Cons.prems by simp
  qed
  then have "sorted_wrt (<) (map fst (map_store (fst app)
      (TriggerRecordBuilderData2 (m_metadata dflt) (fst app) (snd app)) m1))"
    by (simp add: keys_map_store)
  then show ?case
    using Cons.IH a by simp
qed

lemma do_conf_registry:
  assumes "sorted_wrt (<) (map fst (m_dataflow_availability s))"
  shows "sorted_wrt (<) (map fst (m_dataflow_availability (do_conf dflt parsed_conf s)))
    \<and> m_dataflow_availability_iter (do_conf dflt parsed_conf s)
        = map_begin (m_dataflow_availability (do_conf dflt parsed_conf s))"
  using conf_apps_sorted [OF assms] by (simp add: do_conf_def Let_def)

lemma do_conf_example:
  "m_dataflow_availability (do_conf dflt
      \<lparr> dataflow_applications = [(''trb2'', 2), (''trb1'', 3)], td_send_retries = 3 \<rparr>
      ((dfo_with [] None [])\<lparr>m_metadata_function := None\<rparr>))
    = [(''trb1'', TriggerRecordBuilderData2 (m_metadata dflt) ''trb1'' 3),
       (''trb2'', TriggerRecordBuilderData2 (m_metadata dflt) ''trb2'' 2)]
   \<and> m_dataflow_availability_iter (do_conf dflt
      \<lparr> dataflow_applications = [(''trb2'', 2), (''trb1'', 3)], td_send_retries = 3 \<rparr>
      ((dfo_with [] None [])\<lparr>m_metadata_function := None\<rparr>)) = Some ''trb1''"
  by (simp add: do_conf_def dfo_with_def map_at_def map_store_def map_begin_def)

subsection \<open>Completion tokens for unknown workers\<close>

text \<open>
  Claim C2.  The claim asks that a token whose destination names no configured worker
  leaves the set of registry keys as configuration made it.  The callback looks the
  destination up with \<open>operator[]\<close>, which inserts a default-constructed worker under a
  key it does not find.  With the one worker \<open>trb\<close> configured, a token of the current run
  addressed to \<open>ghost\<close> leaves the registry with the keys \<open>ghost\<close> and \<open>trb\<close>, whatever the
  default-constructed worker and the time are.
\<close>

theorem token_for_unknown_worker_adds_entry:
  "map fst (m_dataflow_availability (dfo_with [(''trb'', free_worker ''trb'')] (Some ''trb'') []))
     = [''trb'']
   \<and> map fst (m_dataflow_availability
        (receive_trigger_complete_token dflt now
           \<lparr> token_run_number = 1, token_trigger_number = 7, decision_destination = ''ghost'' \<rparr>
           (dfo_with [(''trb'', free_worker ''trb'')] (Some ''trb'') [])))
     = [''ghost'', ''trb'']"
proof -
  let ?s = "dfo_with [(''trb'', free_worker ''trb'')] (Some ''trb'') []"
  let ?t = "\<lparr> token_run_number = 1, token_trigger_number = 7, decision_destination = ''ghost'' \<rparr>"
  have r: "token_run_number ?t = m_run_number ?s"
    by (simp add: dfo_with_def)
  show ?thesis
    unfolding receive_trigger_complete_token_keys [OF r]
    by (simp add: dfo_with_def)
qed

subsection \<open>What selection, sending and draining leave unchanged\<close>

lemma find_slot_loop_frame:
  "find_slot_loop d now tries s = Inr (r, s')
   \<Longrightarrow> s' = s\<lparr>m_dataflow_availability_iter := m_dataflow_availability_iter s'\<rparr>"
proof (induction d now tries s rule: find_slot_loop.induct)
  case (1 d now tries s)
  from "1.prems" show ?case
    apply (subst (asm) find_slot_loop.simps)
    apply (auto split: if_splits option.splits simp: Let_def dest!: "1.IH")
    done
qed

lemma find_slot_frame:
  assumes "find_slot d now s = Inr (r, s')"
  shows "m_dataflow_availability s' = m_dataflow_availability s"
    and "m_run_number s' = m_run_number s"
    and "m_td_send_retries s' = m_td_send_retries s"
proof -
  have "s' = s\<lparr>m_dataflow_availability_iter := m_dataflow_availability_iter s'\<rparr>"
    using assms unfolding find_slot_def by (rule find_slot_loop_frame)
  then obtain c where "s' = s\<lparr>m_dataflow_availability_iter := c\<rparr>"
    by blast
  then show "m_dataflow_availability s' = m_dataflow_availability s"
    and "m_run_number s' = m_run_number s"
    and "m_td_send_retries s' = m_td_send_retries s"
    by simp_all
qed

lemma find_slot_loop_selected:
  "find_slot_loop d now tries s = Inr (Some a, s')
   \<Longrightarrow> \<exists>k w. m_dataflow_availability_iter s' = Some k
          \<and> map_of (m_dataflow_availability s) k = Some w \<and> has_slot w
          \<and> a = make_assignment d now w"
proof (induction d now tries s rule: find_slot_loop.induct)
  case (1 d now tries s)
  let ?m = "m_dataflow_availability s"
  let ?it2 = "\<lambda>k. if map_next k ?m = None then map_begin ?m else map_next k ?m"
  from "1.prems" obtain k w0 k' w where
    c: "tries < length ?m" "m_dataflow_availability_iter s = Some k" "map_of ?m k = Some w0"
       "?it2 k = Some k'" "map_of ?m k' = Some w"
    and r: "(if has_slot w
         then Inr (Some (make_assignment d now w), s\<lparr>m_dataflow_availability_iter := ?it2 k\<rparr>)
         else find_slot_loop d now (tries + 1) (s\<lparr>m_dataflow_availability_iter := ?it2 k\<rparr>))
        = Inr (Some a, s')"
    by (subst (asm) find_slot_loop.simps)
       (simp add: Let_def split: if_splits option.splits)
  show ?case
  proof (cases "has_slot w")
    case True
    with r c show ?thesis by auto
  next
    case False
    with r have "find_slot_loop d now (tries + 1) (s\<lparr>m_dataflow_availability_iter := ?it2 k\<rparr>)
        = Inr (Some a, s')"
      by simp
    from "1.IH" [OF c(1) c(2) c(3) refl refl c(4) c(5) False this]
    show ?thesis by simp
  qed
qed

lemma dispatch_loop_frame:
  "m_dataflow_availability (snd (dispatch_loop name send_ok run_flag k retries s))
     = m_dataflow_availability s
   \<and> m_run_number (snd (dispatch_loop name send_ok run_flag k retries s)) = m_run_number s
   \<and> m_dataflow_availability_iter (snd (dispatch_loop name send_ok run_flag k retries s))
     = m_dataflow_availability_iter s"
proof (induction name send_ok run_flag k retries s rule: dispatch_loop.induct)
  case (1 name send_ok run_flag k retries s)
  then show ?case
    by (subst (1 2 3) dispatch_loop.simps) (auto simp: Let_def)
qed

lemma dispatch_frame:
  assumes "dispatch a send_ok run_flag s = Inr (sent, s')"
  shows "m_dataflow_availability s' = m_dataflow_availability s
    \<and> m_run_number s' = m_run_number s
    \<and> m_dataflow_availability_iter s' = m_dataflow_availability_iter s"
proof (cases a)
  case None
  then show ?thesis
    using assms by (simp add: dispatch_def)
next
  case (Some b)
  then have "dispatch_loop (connection_name b) send_ok run_flag 0 (m_td_send_retries s) s = (sent, s')"
    using assms by (simp add: dispatch_def)
  then have "s' = snd (dispatch_loop (connection_name b) send_ok run_flag 0 (m_td_send_retries s) s)"
    by simp
  then show ?thesis
    by (simp only: dispatch_loop_frame)
qed

lemma do_work_drain_frame:
  "do_work_drain clock send_ok i s = Inr s'
   \<Longrightarrow> m_dataflow_availability s' = m_dataflow_availability s
       \<and> m_run_number s' = m_run_number s"
proof (induction clock send_ok i s rule: do_work_drain.induct)
  case (1 clock send_ok i s)
  show ?case
  proof (cases "m_trigger_decision_queue s")
    case Nil
    then show ?thesis
      using "1.prems" by (subst (asm) do_work_drain.simps) (auto simp: extract_a_decision_def)
  next
    case (Cons d q)
    let ?s1 = "s\<lparr>m_trigger_decision_queue := q, m_received_decisions := m_received_decisions s + 1\<rparr>"
    have e: "extract_a_decision s = (Some d, ?s1)"
      by (simp add: extract_a_decision_def Cons)
    from "1.prems" obtain a s2 sent s3 where
      f: "find_slot d (clock i) ?s1 = Inr (a, s2)"
      and dp: "dispatch a (send_ok i) (\<lambda>n. False) s2 = Inr (sent, s3)"
      and rec: "do_work_drain clock send_ok (i + 1) s3 = Inr s'"
      by (subst (asm) do_work_drain.simps) (auto simp: e split: sum.splits prod.splits)
    have "m_dataflow_availability s' = m_dataflow_availability s3
       \<and> m_run_number s' = m_run_number s3"
      using "1.IH" [OF e [symmetric] refl f refl dp refl rec] .
    moreover have "m_dataflow_availability s3 = m_dataflow_availability s2
       \<and> m_run_number s3 = m_run_number s2"
      using dispatch_frame [OF dp] by simp
    moreover have "m_dataflow_availability s2 = m_dataflow_availability s
       \<and> m_run_number s2 = m_run_number s"
      using find_slot_frame [OF f] by simp
    ultimately show ?thesis by simp
  qed
qed

subsection \<open>Error quarantine\<close>

lemma dispatch_loop_all_fail:
  "(\<forall>j. j < nat (max 1 retries) \<longrightarrow> \<not> send_ok (k + j))
   \<Longrightarrow> \<not> fst (dispatch_loop name send_ok run_flag k retries s)"
proof (induction name send_ok run_flag k retries s rule: dispatch_loop.induct)
  case (1 name send_ok run_flag k retries s)
  from "1.prems" have k: "\<not> send_ok k"
    by (auto dest: spec [where x = 0])
  show ?case
  proof (cases "run_flag k \<and> retries - 1 > 0")
    case True
    have "\<forall>j. j < nat (max 1 (retries - 1)) \<longrightarrow> \<not> send_ok (k + 1 + j)"
    proof (intro allI impI)
      fix j assume "j < nat (max 1 (retries - 1))"
      then have "Suc j < nat (max 1 retries)"
        using True by auto
      then show "\<not> send_ok (k + 1 + j)"
        using "1.prems" by (auto dest: spec [where x = "Suc j"])
    qed
    then have "\<not> fst (dispatch_loop name send_ok run_flag (k + 1) (retries - 1)
        (s\<lparr>issues := issues s @ [Warning_OperationFailed name]\<rparr>))"
      using "1.IH" k True by simp
    then show ?thesis
      using k True by (subst dispatch_loop.simps) (simp add: Let_def)
  next
    case False
    then show ?thesis
      using k by (subst dispatch_loop.simps) (auto simp: Let_def)
  qed
qed



lemma in_error_at_iff:
  "in_error_at name s \<longleftrightarrow> (\<exists>w. map_of (m_dataflow_availability s) name = Some w \<and> m_in_error w)"
  by (auto simp: in_error_at_def is_in_error_def split: option.splits)

lemma in_error_no_slot: "in_error_at name s \<Longrightarrow> \<not> has_slot_at name s"
  by (auto simp: in_error_at_iff has_slot_at_def has_slot_def)

lemma extract_assignment_in_error:
  "m_in_error (snd (extract_assignment tn w)) = m_in_error w"
  by (simp add: extract_assignment_def Let_def split: prod.splits)

lemma complete_assignment_in_error:
  "m_in_error (snd (complete_assignment tn f now w)) = m_in_error w"
proof -
  obtain r w1 where e: "extract_assignment tn w = (r, w1)"
    by (cases "extract_assignment tn w")
  then have "m_in_error w1 = m_in_error w"
    using extract_assignment_in_error [of tn w] by simp
  then show ?thesis
    by (simp add: complete_assignment_def e Let_def split: option.splits)
qed

lemma receive_trigger_complete_token_run_number:
  "m_run_number (receive_trigger_complete_token dflt now token s) = m_run_number s"
  by (simp add: receive_trigger_complete_token_def Let_def split: prod.splits)

lemma receive_trigger_complete_token_other:
  assumes "\<not> (decision_destination token = name \<and> token_run_number token = m_run_number s)"
  shows "map_of (m_dataflow_availability (receive_trigger_complete_token dflt now token s)) name
    = map_of (m_dataflow_availability s) name"
proof (cases "token_run_number token = m_run_number s")
  case False
  then show ?thesis
    by (simp add: receive_trigger_complete_token_def Let_def)
next
  case True
  with assms have ne: "name \<noteq> decision_destination token" by auto
  let ?k = "decision_destination token"
  let ?m = "m_dataflow_availability s"
  obtain w m1 where a: "map_at dflt ?k ?m = (w, m1)"
    by (cases "map_at dflt ?k ?m")
  obtain r w' where c: "complete_assignment (token_trigger_number token) (m_metadata_function s) now w = (r, w')"
    by (cases "complete_assignment (token_trigger_number token) (m_metadata_function s) now w")
  have l: "map_of (map_store ?k w' m1) k' = (if k' = ?k then Some w' else map_of ?m k')" for k'
    using registry_modify [OF a] by simp
  have b: "map_at dflt ?k (map_store ?k w' m1) = (w', map_store ?k w' m1)"
    using l [of ?k] by (simp add: map_at_existing)
  have m1: "map_of m1 name = map_of ?m name"
    using map_of_map_at [of dflt ?k ?m name] a ne by simp
  show ?thesis
    using True ne
    by (simp add: receive_trigger_complete_token_def a c b Let_def l map_of_map_store m1)
qed

lemma receive_trigger_complete_token_clears:
  assumes "token_run_number token = m_run_number s"
  shows "\<not> in_error_at (decision_destination token)
           (receive_trigger_complete_token dflt now token s)"
proof -
  let ?k = "decision_destination token"
  let ?m = "m_dataflow_availability s"
  obtain w m1 where a: "map_at dflt ?k ?m = (w, m1)"
    by (cases "map_at dflt ?k ?m")
  obtain r w' where c: "complete_assignment (token_trigger_number token) (m_metadata_function s) now w = (r, w')"
    by (cases "complete_assignment (token_trigger_number token) (m_metadata_function s) now w")
  have l: "map_of (map_store ?k w' m1) k' = (if k' = ?k then Some w' else map_of ?m k')" for k'
    using registry_modify [OF a] by simp
  have b: "map_at dflt ?k (map_store ?k w' m1) = (w', map_store ?k w' m1)"
    using l [of ?k] by (simp add: map_at_existing)
  show ?thesis
    using assms
    by (simp add: receive_trigger_complete_token_def a c b Let_def l map_of_map_store
        in_error_at_def is_in_error_def set_in_error_def)
qed

lemma add_assignment_in_error:
  "m_in_error (snd (add_assignment a w)) = m_in_error w"
  by (simp add: add_assignment_def Let_def)

lemma add_assignment_ok_not_in_error:
  "add_assignment a w = (Inr u, w') \<Longrightarrow> \<not> m_in_error w"
  by (auto simp: add_assignment_def is_in_error_def Let_def split: if_splits)

lemma assign_trigger_decision_in_error:
  assumes "in_error_at name s" and "assign_trigger_decision dflt a s = Inr s'"
  shows "in_error_at name s' \<and> m_run_number s' = m_run_number s"
proof -
  let ?k = "connection_name a"
  let ?m = "m_dataflow_availability s"
  obtain w m1 where at: "map_at dflt ?k ?m = (w, m1)"
    by (cases "map_at dflt ?k ?m")
  from assms(2) obtain u w' where add: "add_assignment a w = (Inr u, w')"
    and s': "s' = s\<lparr>m_dataflow_availability := map_store ?k w' m1\<rparr>"
    by (auto simp: assign_trigger_decision_def at split: prod.splits sum.splits)
  have l: "map_of (map_store ?k w' m1) name = (if name = ?k then Some w' else map_of ?m name)"
    using registry_modify [OF at] by simp
  have "name \<noteq> ?k"
  proof
    assume "name = ?k"
    with assms(1) obtain wn where "map_of ?m ?k = Some wn" "m_in_error wn"
      by (auto simp: in_error_at_iff)
    then have "w = wn"
      using at by (simp add: map_at_def)
    with \<open>m_in_error wn\<close> add_assignment_ok_not_in_error [OF add] show False
      by simp
  qed
  then show ?thesis
    using assms(1) by (simp add: s' in_error_at_def l)
qed

lemma mark_in_error:
  assumes "map_at dflt k (m_dataflow_availability s) = (w, m1)"
  shows "in_error_at k (s\<lparr>m_dataflow_availability := map_store k (set_in_error True w) m1\<rparr>)"
    and "in_error_at name s \<Longrightarrow>
         in_error_at name (s\<lparr>m_dataflow_availability := map_store k (set_in_error True w) m1\<rparr>)"
  using registry_modify [OF assms, of "set_in_error True w"]
  by (auto simp: in_error_at_def is_in_error_def set_in_error_def split: option.splits)

lemma do_work_assign_pass_in_error:
  assumes "in_error_at name s"
    and "do_work_assign_pass dflt d now send_ok run_flag s = Inr (c, s')"
  shows "in_error_at name s' \<and> m_run_number s' = m_run_number s"
proof -
  from assms(2) obtain r s1 where f: "find_slot d now s = Inr (r, s1)"
    by (auto simp: do_work_assign_pass_def split: sum.splits)
  have e1: "in_error_at name s1" and r1: "m_run_number s1 = m_run_number s"
    using assms(1) find_slot_frame [OF f] by (simp_all add: in_error_at_def)
  show ?thesis
  proof (cases r)
    case None
    then show ?thesis
      using assms(2) e1 r1 by (simp add: do_work_assign_pass_def f)
  next
    case (Some a)
    from assms(2) obtain sent s2 where dp: "dispatch (Some a) send_ok run_flag s1 = Inr (sent, s2)"
      by (auto simp: do_work_assign_pass_def f Some split: sum.splits)
    have e2: "in_error_at name s2" and r2: "m_run_number s2 = m_run_number s"
      using e1 r1 dispatch_frame [OF dp] by (simp_all add: in_error_at_def)
    show ?thesis
    proof (cases sent)
      case True
      with assms(2) obtain s3 where "assign_trigger_decision dflt a s2 = Inr s3" "s' = s3"
        by (auto simp: do_work_assign_pass_def f Some dp split: sum.splits)
      then show ?thesis
        using assign_trigger_decision_in_error [OF e2] r2 by simp
    next
      case False
      let ?s3 = "s2\<lparr>issues := issues s2 @ [Error_TriggerRecordBuilderAppUpdate (connection_name a)]\<rparr>"
      obtain w m1 where at: "map_at dflt (connection_name a) (m_dataflow_availability ?s3) = (w, m1)"
        by (cases "map_at dflt (connection_name a) (m_dataflow_availability ?s3)")
      have e3: "in_error_at name ?s3"
        using e2 by (simp add: in_error_at_def)
      have "s' = ?s3\<lparr>m_dataflow_availability := map_store (connection_name a) (set_in_error True w) m1\<rparr>"
        using assms(2) False at by (simp add: do_work_assign_pass_def f Some dp Let_def)
      then show ?thesis
        using mark_in_error(2) [OF at e3] r2 by simp
    qed
  qed
qed

lemma do_work_assign_pass_marks:
  assumes "find_slot d now s = Inr (Some a, s1)"
    and "\<forall>j. j < nat (max 1 (m_td_send_retries s)) \<longrightarrow> \<not> send_ok j"
    and "map_of (m_dataflow_availability s) (connection_name a) = Some w"
  shows "\<exists>s2. do_work_assign_pass dflt d now send_ok run_flag s = Inr (Continue, s2)
    \<and> map_of (m_dataflow_availability s2) (connection_name a) = Some (set_in_error True w)
    \<and> m_run_number s2 = m_run_number s"
proof -
  have rt: "m_td_send_retries s1 = m_td_send_retries s" and r1: "m_run_number s1 = m_run_number s"
    and m1: "m_dataflow_availability s1 = m_dataflow_availability s"
    using find_slot_frame [OF assms(1)] by simp_all
  obtain sent s2 where dl: "dispatch_loop (connection_name a) send_ok run_flag 0 (m_td_send_retries s1) s1 = (sent, s2)"
    by (cases "dispatch_loop (connection_name a) send_ok run_flag 0 (m_td_send_retries s1) s1")
  have "\<not> fst (dispatch_loop (connection_name a) send_ok run_flag 0 (m_td_send_retries s1) s1)"
    using assms(2) by (intro dispatch_loop_all_fail) (simp add: rt)
  then have ns: "\<not> sent"
    using dl by simp
  have dp: "dispatch (Some a) send_ok run_flag s1 = Inr (False, s2)"
    using dl ns by (simp add: dispatch_def)
  have r2: "m_run_number s2 = m_run_number s" and m2: "m_dataflow_availability s2 = m_dataflow_availability s"
    using dispatch_frame [OF dp] r1 m1 by simp_all
  let ?s3 = "s2\<lparr>issues := issues s2 @ [Error_TriggerRecordBuilderAppUpdate (connection_name a)]\<rparr>"
  have at: "map_at dflt (connection_name a) (m_dataflow_availability ?s3) = (w, m_dataflow_availability s)"
    using assms(3) m2 by (simp add: map_at_existing)
  have "do_work_assign_pass dflt d now send_ok run_flag s
      = Inr (Continue, ?s3\<lparr>m_dataflow_availability :=
          map_store (connection_name a) (set_in_error True w) (m_dataflow_availability s)\<rparr>)"
    using at by (simp add: do_work_assign_pass_def assms(1) dp Let_def)
  moreover have "map_of (map_store (connection_name a) (set_in_error True w) (m_dataflow_availability s))
      (connection_name a) = Some (set_in_error True w)"
    using registry_modify [OF at, of "set_in_error True w" "connection_name a"] by simp
  ultimately show ?thesis
    using r2 by simp
qed

lemma dfo_step_in_error:
  assumes "in_error_at name s"
    and "\<not> token_for name (m_run_number s) ev"
    and "dfo_step dflt ev s = Inr s'"
  shows "in_error_at name s' \<and> m_run_number s' = m_run_number s"
proof (cases ev)
  case (TokenReceived now token)
  then have "map_of (m_dataflow_availability s') name = map_of (m_dataflow_availability s) name"
    using assms(2,3) receive_trigger_complete_token_other [of token name s dflt now] by auto
  then show ?thesis
    using assms(1,3) TokenReceived
    by (auto simp: in_error_at_def receive_trigger_complete_token_run_number)
next
  case (AssignPass d now send_ok run_flag)
  then obtain c where "do_work_assign_pass dflt d now send_ok run_flag s = Inr (c, s')"
    using assms(3) by (auto split: sum.splits)
  then show ?thesis
    using do_work_assign_pass_in_error [OF assms(1)] by simp
next
  case (Drain clock send_ok)
  then show ?thesis
    using assms(1,3) do_work_drain_frame [of clock send_ok 0 s s'] by (simp add: in_error_at_def)
qed

lemma dfo_run_in_error:
  assumes "in_error_at name s"
    and "\<forall>ev\<in>set evs. \<not> token_for name (m_run_number s) ev"
    and "dfo_run dflt evs s = Inr s'"
  shows "in_error_at name s' \<and> m_run_number s' = m_run_number s"
  using assms
proof (induction evs arbitrary: s)
  case Nil
  then show ?case by simp
next
  case (Cons ev evs)
  from Cons.prems(3) obtain s1 where st: "dfo_step dflt ev s = Inr s1"
    and rn: "dfo_run dflt evs s1 = Inr s'"
    by (auto split: sum.splits)
  have a: "in_error_at name s1 \<and> m_run_number s1 = m_run_number s"
    using dfo_step_in_error [OF Cons.prems(1) _ st] Cons.prems(2) by simp
  then have "in_error_at name s' \<and> m_run_number s' = m_run_number s1"
    using Cons.IH [of s1] Cons.prems(2) rn by simp
  then show ?case
    using a by simp
qed

lemma find_slot_skips_in_error:
  assumes "in_error_at name s" and "find_slot d now s = Inr (Some a, s')"
  shows "m_dataflow_availability_iter s' \<noteq> Some name"
proof -
  from assms(2) obtain k w where "m_dataflow_availability_iter s' = Some k"
    "map_of (m_dataflow_availability s) k = Some w" "has_slot w"
    unfolding find_slot_def by (blast dest: find_slot_loop_selected)
  then show ?thesis
    using assms(1) by (auto simp: in_error_at_iff has_slot_def)
qed

lemma named_by_key_map_store:
  "named_by_key m \<Longrightarrow> m_connection_name w = k \<Longrightarrow> named_by_key (map_store k w m)"
  by (induction m) (auto simp: named_by_key_def map_store_def)

lemma conf_apps_named:
  fixes m :: "'j registry"
  assumes "named_by_key m"
  shows "named_by_key (conf_apps dflt apps m)"
  using assms
proof (induction apps arbitrary: m)
  case Nil
  then show ?case by simp
next
  case (Cons app apps)
  obtain w m1 where a: "map_at dflt (fst app) m = (w, m1)"
    by (cases "map_at dflt (fst app) m")
  let ?w = "TriggerRecordBuilderData2 (m_metadata dflt) (fst app) (snd app)"
  have "set (map_store (fst app) ?w m1) \<subseteq> set (map_store (fst app) ?w m) \<union> {(fst app, ?w)}"
    using a by (auto simp: map_at_def map_store_def set_insort_key split: option.splits)
  moreover have "named_by_key (map_store (fst app) ?w m)"
    using Cons.prems by (intro named_by_key_map_store) (simp_all add: TriggerRecordBuilderData2_def)
  ultimately have "named_by_key (map_store (fst app) ?w m1)"
    by (auto simp: named_by_key_def list_all_iff TriggerRecordBuilderData2_def)
  then show ?case
    using Cons.IH a by simp
qed

lemma do_conf_named:
  "named_by_key (m_dataflow_availability s)
   \<Longrightarrow> named_by_key (m_dataflow_availability (do_conf dflt parsed_conf s))"
  by (simp add: do_conf_def Let_def conf_apps_named)

lemma find_slot_selected_named:
  assumes "named_by_key (m_dataflow_availability s)"
    and "find_slot d now s = Inr (Some a, s1)"
  shows "\<exists>w. m_dataflow_availability_iter s1 = Some (connection_name a)
    \<and> map_of (m_dataflow_availability s) (connection_name a) = Some w
    \<and> has_slot w \<and> a = make_assignment d now w"
proof -
  from assms(2) obtain k w where c: "m_dataflow_availability_iter s1 = Some k"
    "map_of (m_dataflow_availability s) k = Some w" "has_slot w" "a = make_assignment d now w"
    unfolding find_slot_def by (blast dest: find_slot_loop_selected)
  from c(2) have "(k, w) \<in> set (m_dataflow_availability s)"
    by (rule map_of_SomeD)
  then have "m_connection_name w = k"
    using assms(1) by (auto simp: named_by_key_def list_all_iff)
  then have "connection_name a = k"
    using c(4) by (simp add: make_assignment_def)
  then show ?thesis
    using c by blast
qed

lemma workers_names:
  "m_connection_name (free_worker n) = n" "m_connection_name (busy_worker n) = n"
  "m_connection_name (errored_worker n) = n"
  by (simp_all add: free_worker_def busy_worker_def errored_worker_def
      TriggerRecordBuilderData2_def add_assignment_def is_in_error_def set_in_error_def)

text \<open>
  Claim C7, as stated: after a dispatch that failed all its send attempts the worker has
  no slot until a completion token addressed to it is successfully processed.  The
  callback clears the \<open>in_error\<close> flag after it has caught the exception of
  \<open>complete_assignment\<close>, so a token whose assignment is not found ends the quarantine too.
  With \<open>trb1\<close> free and \<open>trb2\<close> busy, the failed pass puts \<open>trb1\<close> in error; the token for
  trigger number 999, which \<open>trb1\<close> was never assigned, is answered with the warning that
  the assignment was not found, and still leaves \<open>trb1\<close> with a slot, so that the next
  \<open>find_slot\<close> selects it again.
\<close>

theorem quarantine_ended_by_unfound_token:
  "do_work_assign_pass (free_worker []) (decision_of 5) 100 all_sends_fail flag_stays_set
      (dfo_with [(''trb1'', free_worker ''trb1''), (''trb2'', busy_worker ''trb2'')] (Some ''trb2'') [])
     = Inr (Continue,
        (dfo_with [(''trb1'', errored_worker ''trb1''), (''trb2'', busy_worker ''trb2'')]
           (Some ''trb1'') [])
        \<lparr>issues := [Warning_OperationFailed ''trb1'', Warning_OperationFailed ''trb1'',
                    Warning_OperationFailed ''trb1'',
                    Error_TriggerRecordBuilderAppUpdate ''trb1'']\<rparr>)
   \<and> \<not> has_slot (errored_worker ''trb1'')
   \<and> fst (complete_assignment 999 None 200 (errored_worker ''trb1''))
       = Inl (AssignedTriggerDecisionNotFound 999 ''trb1'')
   \<and> receive_trigger_complete_token (free_worker []) 200 (token_of 999 ''trb1'')
        ((dfo_with [(''trb1'', errored_worker ''trb1''), (''trb2'', busy_worker ''trb2'')]
           (Some ''trb1'') [])
         \<lparr>issues := [Warning_OperationFailed ''trb1'', Warning_OperationFailed ''trb1'',
                     Warning_OperationFailed ''trb1'',
                     Error_TriggerRecordBuilderAppUpdate ''trb1'']\<rparr>)
     = (dfo_with [(''trb1'', free_worker ''trb1''), (''trb2'', busy_worker ''trb2'')]
           (Some ''trb1'') [])
        \<lparr>m_received_tokens := 1,
         issues := [Warning_OperationFailed ''trb1'', Warning_OperationFailed ''trb1'',
                    Warning_OperationFailed ''trb1'',
                    Error_TriggerRecordBuilderAppUpdate ''trb1'',
                    Warning_AssignedTriggerDecisionNotFound 999 ''trb1'',
                    Log_TriggerRecordBuilderAppUpdate ''trb1'']\<rparr>
   \<and> has_slot (free_worker ''trb1'')
   \<and> find_slot (decision_of 6) 300
        ((dfo_with [(''trb1'', free_worker ''trb1''), (''trb2'', busy_worker ''trb2'')]
           (Some ''trb1'') [])
         \<lparr>m_received_tokens := 1,
          issues := [Warning_OperationFailed ''trb1'', Warning_OperationFailed ''trb1'',
                     Warning_OperationFailed ''trb1'',
                     Error_TriggerRecordBuilderAppUpdate ''trb1'',
                     Warning_AssignedTriggerDecisionNotFound 999 ''trb1'',
                     Log_TriggerRecordBuilderAppUpdate ''trb1'']\<rparr>)
     = Inr (Some \<lparr> decision = decision_of 6, connection_name = ''trb1'', assigned_time = 300 \<rparr>,
        (dfo_with [(''trb1'', free_worker ''trb1''), (''trb2'', busy_worker ''trb2'')]
           (Some ''trb1'') [])
        \<lparr>m_received_tokens := 1,
         issues := [Warning_OperationFailed ''trb1'', Warning_OperationFailed ''trb1'',
                    Warning_OperationFailed ''trb1'',
                    Error_TriggerRecordBuilderAppUpdate ''trb1'',
                    Warning_AssignedTriggerDecisionNotFound 999 ''trb1'',
                    Log_TriggerRecordBuilderAppUpdate ''trb1'']\<rparr>)"
proof -
  let ?s = "dfo_with [(''trb1'', free_worker ''trb1''), (''trb2'', busy_worker ''trb2'')] (Some ''trb2'') []"
  let ?a = "\<lparr> decision = decision_of 5, connection_name = ''trb1'', assigned_time = 100 \<rparr>"
  let ?s1 = "dfo_with [(''trb1'', free_worker ''trb1''), (''trb2'', busy_worker ''trb2'')] (Some ''trb1'') []"
  let ?ws = "[Warning_OperationFailed ''trb1'', Warning_OperationFailed ''trb1'',
      Warning_OperationFailed ''trb1'']"
  have f: "find_slot (decision_of 5) 100 ?s = Inr (Some ?a, ?s1)"
    by (simp add: find_slot_def find_slot_loop.simps [of _ _ 0] dfo_with_def map_next_def
        map_begin_def workers_slots make_assignment_def workers_names)
  have dl: "dispatch_loop ''trb1'' all_sends_fail flag_stays_set 0 3 ?s1
      = (False, ?s1\<lparr>issues := ?ws\<rparr>)"
    by (simp add: dispatch_loop.simps [of _ _ _ 0] dispatch_loop.simps [of _ _ _ "Suc 0"]
        dispatch_loop.simps [of _ _ _ "Suc (Suc 0)"] all_sends_fail_def flag_stays_set_def dfo_with_def)
  have e: "set_in_error True (free_worker ''trb1'') = errored_worker ''trb1''"
    by (simp add: errored_worker_def free_worker_def)
  have p: "do_work_assign_pass (free_worker []) (decision_of 5) 100 all_sends_fail flag_stays_set ?s
     = Inr (Continue,
        (dfo_with [(''trb1'', errored_worker ''trb1''), (''trb2'', busy_worker ''trb2'')]
           (Some ''trb1'') [])
        \<lparr>issues := ?ws @ [Error_TriggerRecordBuilderAppUpdate ''trb1'']\<rparr>)"
    by (simp add: do_work_assign_pass_def f dispatch_def)
       (simp add: dfo_with_def dl [unfolded dfo_with_def, simplified] map_at_def map_store_def e)
  have c: "complete_assignment 999 None 200 (errored_worker ''trb1'')
      = (Inl (AssignedTriggerDecisionNotFound 999 ''trb1''), errored_worker ''trb1'')"
    by (simp add: complete_assignment_def extract_assignment_def errored_worker_def
        set_in_error_def TriggerRecordBuilderData2_def)
  have e': "set_in_error False (errored_worker ''trb1'') = free_worker ''trb1''"
    by (simp add: errored_worker_def free_worker_def set_in_error_def TriggerRecordBuilderData2_def)
  have ie: "is_in_error (errored_worker ''trb1'')"
    by (simp add: errored_worker_def set_in_error_def is_in_error_def)
  have t: "receive_trigger_complete_token (free_worker []) 200 (token_of 999 ''trb1'')
        ((dfo_with [(''trb1'', errored_worker ''trb1''), (''trb2'', busy_worker ''trb2'')]
           (Some ''trb1'') [])
         \<lparr>issues := ?ws @ [Error_TriggerRecordBuilderAppUpdate ''trb1'']\<rparr>)
     = (dfo_with [(''trb1'', free_worker ''trb1''), (''trb2'', busy_worker ''trb2'')]
           (Some ''trb1'') [])
        \<lparr>m_received_tokens := 1,
         issues := ?ws @ [Error_TriggerRecordBuilderAppUpdate ''trb1'',
                    Warning_AssignedTriggerDecisionNotFound 999 ''trb1'',
                    Log_TriggerRecordBuilderAppUpdate ''trb1'']\<rparr>"
    by (simp add: receive_trigger_complete_token_def dfo_with_def token_of_def map_at_def
        map_store_def c e' ie workers_names)
  have f2: "find_slot (decision_of 6) 300
        ((dfo_with [(''trb1'', free_worker ''trb1''), (''trb2'', busy_worker ''trb2'')]
           (Some ''trb1'') [])
         \<lparr>m_received_tokens := 1,
          issues := ?ws @ [Error_TriggerRecordBuilderAppUpdate ''trb1'',
                     Warning_AssignedTriggerDecisionNotFound 999 ''trb1'',
                     Log_TriggerRecordBuilderAppUpdate ''trb1'']\<rparr>)
     = Inr (Some \<lparr> decision = decision_of 6, connection_name = ''trb1'', assigned_time = 300 \<rparr>,
        (dfo_with [(''trb1'', free_worker ''trb1''), (''trb2'', busy_worker ''trb2'')]
           (Some ''trb1'') [])
        \<lparr>m_received_tokens := 1,
         issues := ?ws @ [Error_TriggerRecordBuilderAppUpdate ''trb1'',
                    Warning_AssignedTriggerDecisionNotFound 999 ''trb1'',
                    Log_TriggerRecordBuilderAppUpdate ''trb1'']\<rparr>)"
    by (simp add: find_slot_def find_slot_loop.simps [of _ _ 0] find_slot_loop.simps [of _ _ "Suc 0"]
        dfo_with_def map_next_def map_begin_def workers_slots make_assignment_def workers_names)
  from p c t f2 show ?thesis
    by (simp add: workers_slots)
qed

text \<open>
  Claim C7, amended.  In a registry whose workers are named by their keys, suppose
  \<open>find_slot\<close> selects a worker for a decision and every send attempt of the dispatch
  fails, up to the configured number of attempts.  The assignment then names the worker
  the cursor stopped at, a worker of the registry that had a slot, and the pass of the
  assignment loop sets the \<open>in_error\<close> flag of exactly that worker.  After every further
  run of events that has no token of the current run addressed to that worker, the flag
  is still set, the worker has no slot, and no \<open>find_slot\<close> stops at it.  Every token of
  the current run addressed to it clears the flag, whether or not its assignment is
  found.
\<close>

theorem quarantine_until_token:
  assumes "named_by_key (m_dataflow_availability s)"
    and "find_slot d now s = Inr (Some a, s1)"
    and "\<forall>j. j < nat (max 1 (m_td_send_retries s)) \<longrightarrow> \<not> send_ok j"
  shows "\<exists>w s2. m_dataflow_availability_iter s1 = Some (connection_name a)
    \<and> map_of (m_dataflow_availability s) (connection_name a) = Some w
    \<and> has_slot w
    \<and> do_work_assign_pass dflt d now send_ok run_flag s = Inr (Continue, s2)
    \<and> map_of (m_dataflow_availability s2) (connection_name a) = Some (set_in_error True w)
    \<and> in_error_at (connection_name a) s2
    \<and> (\<forall>evs s3.
          (\<forall>ev\<in>set evs. \<not> token_for (connection_name a) (m_run_number s) ev)
          \<and> dfo_run dflt evs s2 = Inr s3
          \<longrightarrow> in_error_at (connection_name a) s3
            \<and> \<not> has_slot_at (connection_name a) s3
            \<and> (\<forall>d' now' a' s4. find_slot d' now' s3 = Inr (Some a', s4)
                  \<longrightarrow> m_dataflow_availability_iter s4 \<noteq> Some (connection_name a))
            \<and> (\<forall>now' token. decision_destination token = connection_name a
                    \<and> token_run_number token = m_run_number s
                  \<longrightarrow> \<not> in_error_at (connection_name a)
                        (receive_trigger_complete_token dflt now' token s3)))"
proof -
  let ?n = "connection_name a"
  from find_slot_selected_named [OF assms(1,2)]
  obtain w where c: "m_dataflow_availability_iter s1 = Some ?n"
    and l: "map_of (m_dataflow_availability s) ?n = Some w" and h: "has_slot w"
    by blast
  from do_work_assign_pass_marks [OF assms(2,3) l, of dflt run_flag]
  obtain s2 where p: "do_work_assign_pass dflt d now send_ok run_flag s = Inr (Continue, s2)"
    and l2: "map_of (m_dataflow_availability s2) ?n = Some (set_in_error True w)"
    and r: "m_run_number s2 = m_run_number s"
    by blast
  have e: "in_error_at ?n s2"
    using l2 by (simp add: in_error_at_def is_in_error_def set_in_error_def)
  have "in_error_at ?n s3
      \<and> \<not> has_slot_at ?n s3
      \<and> (\<forall>d' now' a' s4. find_slot d' now' s3 = Inr (Some a', s4)
            \<longrightarrow> m_dataflow_availability_iter s4 \<noteq> Some ?n)
      \<and> (\<forall>now' token. decision_destination token = ?n \<and> token_run_number token = m_run_number s
            \<longrightarrow> \<not> in_error_at ?n (receive_trigger_complete_token dflt now' token s3))"
    if q: "(\<forall>ev\<in>set evs. \<not> token_for ?n (m_run_number s) ev) \<and> dfo_run dflt evs s2 = Inr s3"
    for evs s3
  proof -
    have i: "in_error_at ?n s3 \<and> m_run_number s3 = m_run_number s2"
      using dfo_run_in_error [OF e, of evs dflt s3] q r by simp
    have t: "\<not> in_error_at ?n (receive_trigger_complete_token dflt now' token s3)"
      if "decision_destination token = ?n \<and> token_run_number token = m_run_number s"
      for now' token
      using receive_trigger_complete_token_clears [of token s3 dflt now'] that i r by simp
    show ?thesis
      using i in_error_no_slot [of ?n s3] find_slot_skips_in_error [of ?n s3] t by blast
  qed
  then show ?thesis
    using c l h p l2 e by blast
qed

theorem quarantine_until_token_witness:
  "named_by_key (m_dataflow_availability
      (dfo_with [(''trb1'', free_worker ''trb1''), (''trb2'', busy_worker ''trb2'')] (Some ''trb2'') []))
   \<and> find_slot (decision_of 5) 100
      (dfo_with [(''trb1'', free_worker ''trb1''), (''trb2'', busy_worker ''trb2'')] (Some ''trb2'') [])
     = Inr (Some \<lparr> decision = decision_of 5, connection_name = ''trb1'', assigned_time = 100 \<rparr>,
            dfo_with [(''trb1'', free_worker ''trb1''), (''trb2'', busy_worker ''trb2'')] (Some ''trb1'') [])
   \<and> (\<exists>s2. do_work_assign_pass (free_worker []) (decision_of 5) 100 all_sends_fail flag_stays_set
          (dfo_with [(''trb1'', free_worker ''trb1''), (''trb2'', busy_worker ''trb2'')] (Some ''trb2'') [])
         = Inr (Continue, s2)
       \<and> map_of (m_dataflow_availability s2) ''trb1''
           = Some (set_in_error True (free_worker ''trb1''))
       \<and> in_error_at ''trb1''
           (receive_trigger_complete_token (free_worker []) 200 (token_of 9 ''trb2'') s2)
       \<and> \<not> has_slot_at ''trb1''
           (receive_trigger_complete_token (free_worker []) 200 (token_of 9 ''trb2'') s2)
       \<and> \<not> in_error_at ''trb1''
           (receive_trigger_complete_token (free_worker []) 300 (token_of 999 ''trb1'')
             (receive_trigger_complete_token (free_worker []) 200 (token_of 9 ''trb2'') s2)))"
proof -
  let ?s = "dfo_with [(''trb1'', free_worker ''trb1''), (''trb2'', busy_worker ''trb2'')] (Some ''trb2'') []"
  let ?a = "\<lparr> decision = decision_of 5, connection_name = ''trb1'', assigned_time = 100 \<rparr>"
  let ?s1 = "dfo_with [(''trb1'', free_worker ''trb1''), (''trb2'', busy_worker ''trb2'')] (Some ''trb1'') []"
  let ?dflt = "free_worker []"
  have n: "named_by_key (m_dataflow_availability ?s)"
    by (simp add: named_by_key_def dfo_with_def workers_names)
  have f: "find_slot (decision_of 5) 100 ?s = Inr (Some ?a, ?s1)"
    by (simp add: find_slot_def find_slot_loop.simps [of _ _ 0] dfo_with_def map_next_def
        map_begin_def workers_slots make_assignment_def workers_names)
  have g: "\<forall>j. j < nat (max 1 (m_td_send_retries ?s)) \<longrightarrow> \<not> all_sends_fail j"
    by (simp add: all_sends_fail_def)
  have r: "m_run_number ?s = 1"
    by (simp add: dfo_with_def)
  have l: "map_of (m_dataflow_availability ?s) ''trb1'' = Some (free_worker ''trb1'')"
    by (simp add: dfo_with_def)
  from quarantine_until_token [OF n f g, of ?dflt flag_stays_set]
  obtain w s2 where lw: "map_of (m_dataflow_availability ?s) ''trb1'' = Some w"
    and p: "do_work_assign_pass ?dflt (decision_of 5) 100 all_sends_fail flag_stays_set ?s
         = Inr (Continue, s2)"
    and l2: "map_of (m_dataflow_availability s2) ''trb1'' = Some (set_in_error True w)"
    and q: "\<And>evs s3. (\<forall>ev\<in>set evs. \<not> token_for ''trb1'' 1 ev) \<and> dfo_run ?dflt evs s2 = Inr s3
          \<Longrightarrow> in_error_at ''trb1'' s3
            \<and> \<not> has_slot_at ''trb1'' s3
            \<and> (\<forall>now' token. decision_destination token = ''trb1''
                    \<and> token_run_number token = 1
                  \<longrightarrow> \<not> in_error_at ''trb1''
                        (receive_trigger_complete_token ?dflt now' token s3))"
    unfolding r by (simp only: AssignedTriggerDecision.simps) blast
  from lw l have w: "w = free_worker ''trb1''"
    by simp
  let ?s3 = "receive_trigger_complete_token ?dflt 200 (token_of 9 ''trb2'') s2"
  have "(\<forall>ev\<in>set [TokenReceived 200 (token_of 9 ''trb2'')]. \<not> token_for ''trb1'' 1 ev)
      \<and> dfo_run ?dflt [TokenReceived 200 (token_of 9 ''trb2'')] s2 = Inr ?s3"
    by (simp add: token_of_def)
  from q [OF this]
  have "in_error_at ''trb1'' ?s3" "\<not> has_slot_at ''trb1'' ?s3"
    "\<not> in_error_at ''trb1'' (receive_trigger_complete_token ?dflt 300 (token_of 999 ''trb1'') ?s3)"
    by (simp_all add: token_of_def)
  with n f p l2 w show ?thesis
    by blast
qed

end
